theory Spec2Isabelle
  imports Complex_Main "HOL-Library.Log_Nat"
begin

section \<open>The mixdown engine of lib-sample-track (Mix.cpp)\<close>

text \<open>
  A shallow embedding of \<^verbatim>\<open>src/libraries/lib-sample-track/Mix.cpp\<close>.

  Conventions of the embedding.
  \<^item> Times, rates and speeds, which the engine compares and clamps, are real numbers: the
    finite \<^verbatim>\<open>double\<close> values by their exact value.
  \<^item> Samples, gains and envelope values, and the resampling factors kept in
    \<^verbatim>\<open>ResampleParameters\<close>, are IEEE 754 values (type \<open>ieee\<close> below): the products, sums
    and quotients that Mix.cpp computes on them are rounded to nearest, ties to even, in
    binary32 for \<^verbatim>\<open>float\<close> and binary64 for \<^verbatim>\<open>double\<close>, and overflow to an infinity,
    underflow to zero and give NaN as the standard says.
  \<^item> \<^verbatim>\<open>size_t\<close> and \<^verbatim>\<open>unsigned\<close> values are natural numbers, \<^verbatim>\<open>int\<close> and
    \<^verbatim>\<open>sampleCount\<close> values are integers; where the source mixes signed and unsigned
    operands the conversion modulo \<open>2 ^ 64\<close> is written out.
  \<^item> A \<^verbatim>\<open>std::vector\<close> or array is a list.  The source indexes them unchecked; the
    predicates \<open>Downmix_wf\<close> and \<open>Mixer_wf\<close> below state the sizes the constructors
    establish, under which every index of the code is in range.
\<close>

subsection \<open>MixerOptions::Downmix\<close>

text \<open>
  The class declaration lives in Mix.h: three \<^verbatim>\<open>unsigned\<close> members and the public
  matrix \<^verbatim>\<open>ArraysOf<bool> mMap\<close>, allocated by \<^verbatim>\<open>Alloc\<close> with \<open>mNumTracks\<close> rows of
  \<open>mMaxNumChannels\<close> columns.
\<close>

record Downmix =
  mNumTracks :: nat
  mNumChannels :: nat
  mMaxNumChannels :: nat
  mMap :: "bool list list"

definition Downmix_wf :: "Downmix \<Rightarrow> bool" where
  "Downmix_wf d \<longleftrightarrow>
     length (mMap d) = mNumTracks d \<and>
     list_all (\<lambda>row. length row = mMaxNumChannels d) (mMap d) \<and>
     mNumChannels d \<le> mMaxNumChannels d"

text \<open>\<^verbatim>\<open>for (unsigned j = lo; j < hi; j++) row[j] = false;\<close>\<close>

definition clear_columns :: "nat \<Rightarrow> nat \<Rightarrow> bool list \<Rightarrow> bool list" where
  "clear_columns lo hi row = fold (\<lambda>j r. r[j := False]) [lo..<hi] row"

text \<open>
  \<^verbatim>\<open>Downmix::SetNumChannels\<close> (Mix.cpp 669-688); the result is the returned flag and the
  object after the call.
\<close>

definition SetNumChannels :: "nat \<Rightarrow> Downmix \<Rightarrow> bool \<times> Downmix" where
  "SetNumChannels newNumChannels d =
     (if mNumChannels d = newNumChannels then (True, d)
      else if newNumChannels > mMaxNumChannels d then (False, d)
      else
        (True,
         d\<lparr>mMap :=
              fold (\<lambda>i m. m[i :=
                      clear_columns (mNumChannels d) newNumChannels
                        (clear_columns newNumChannels (mNumChannels d) (m ! i))])
                [0..<mNumTracks d] (mMap d),
            mNumChannels := newNumChannels\<rparr>))"

text \<open>\<^verbatim>\<open>Downmix::Downmix(unsigned numTracks, unsigned maxNumChannels)\<close> (Mix.cpp 632-645).
  \<^verbatim>\<open>Alloc\<close> leaves the matrix uninitialised; \<open>garbage\<close> is what the fresh storage holds.\<close>

definition Downmix_new :: "bool list list \<Rightarrow> nat \<Rightarrow> nat \<Rightarrow> Downmix" where
  "Downmix_new garbage numTracks maxNumChannels =
     (let nc = (if numTracks > maxNumChannels then maxNumChannels else numTracks) in
      \<lparr>mNumTracks = numTracks, mNumChannels = nc, mMaxNumChannels = maxNumChannels,
       mMap =
         fold (\<lambda>i m. m[i := fold (\<lambda>j r. r[j := (i = j)]) [0..<nc] (m ! i)])
           [0..<numTracks] garbage\<rparr>)"

subsection \<open>Values and helpers declared outside Mix.cpp\<close>

text \<open>\<^verbatim>\<open>std::clamp(v, lo, hi)\<close> of the C++ standard library.\<close>

definition std_clamp :: "real \<Rightarrow> real \<Rightarrow> real \<Rightarrow> real" where
  "std_clamp v lo hi = (if v < lo then lo else if hi < v then hi else v)"

text \<open>\<^verbatim>\<open>std::numeric_limits<double>::max()\<close>, the largest finite binary64 value.\<close>

definition numeric_limits_double_max :: real where
  "numeric_limits_double_max = (2 - 1 / 2 ^ 52) * 2 ^ 1023"

text \<open>The conversion of a signed integer to \<^verbatim>\<open>size_t\<close> (64 bits).\<close>

definition size_t_of_int :: "int \<Rightarrow> nat" where
  "size_t_of_int i = nat (i mod 2 ^ 64)"

text \<open>The conversion \<^verbatim>\<open>sampleCount{ double }\<close>: a double becomes a \<^verbatim>\<open>long long\<close> by
  truncation toward zero.\<close>

definition sampleCount_of_double :: "real \<Rightarrow> int" where
  "sampleCount_of_double x = (if 0 \<le> x then \<lfloor>x\<rfloor> else \<lceil>x\<rceil>)"

text \<open>
  Modelled from the spec: \<^verbatim>\<open>limitSampleBufferSize(bufferSize, limit)\<close> is defined in
  SampleCount.cpp, which is not among the sources.  The spec uses it as
  \<open>slen = min(maxOut, \<dots>)\<close> and \<open>getLen = min(Qmax - queueLen, \<dots>)\<close> with the comment
  of the caller that nothing is read past the end of the play interval: the smaller of
  the buffer size and the limit, and zero for a negative limit.
\<close>

definition limitSampleBufferSize :: "nat \<Rightarrow> int \<Rightarrow> nat" where
  "limitSampleBufferSize bufferSize limit = nat (min (int bufferSize) (max 0 limit))"

text \<open>\<^verbatim>\<open>memcpy(&buf[off], xs, length xs * sizeof(float))\<close>, inside the buffer.\<close>

definition copy_into :: "'a list \<Rightarrow> nat \<Rightarrow> 'a list \<Rightarrow> 'a list" where
  "copy_into buf off xs = take off buf @ take (length buf - off) xs @ drop (off + length xs) buf"

text \<open>
  Modelled from the spec: \<^verbatim>\<open>ReverseSamples(buffer, format, start, len)\<close> (SampleFormat.cpp,
  not among the sources) reverses the \<open>len\<close> samples from index \<open>start\<close> in place.
\<close>

definition ReverseSamples :: "'a list \<Rightarrow> nat \<Rightarrow> nat \<Rightarrow> 'a list" where
  "ReverseSamples buf start len =
     take start buf @ rev (take len (drop start buf)) @ drop (start + len) buf"

subsection \<open>Floating-point values\<close>

text \<open>
  The values of an IEEE 754 binary format: the finite ones by their real value, the two
  infinities and NaN.  The two zeros, which compare equal, are the one value \<open>Finite 0\<close>.
\<close>

datatype ieee = Finite real | PlusInfinity | MinusInfinity | NaN

text \<open>The binary exponent of a positive real: \<open>2 ^ ilog2 x \<le> x < 2 ^ (ilog2 x + 1)\<close>.\<close>

definition ilog2 :: "real \<Rightarrow> int" where
  "ilog2 x = (if 1 \<le> x then bitlen \<lfloor>x\<rfloor> - 1 else - bitlen (\<lceil>1 / x\<rceil> - 1))"

text \<open>The nearest integer, the even one of two that are equally near.\<close>

definition round_to_even :: "real \<Rightarrow> int" where
  "round_to_even x =
     (let n = \<lfloor>x\<rfloor>; d = x - of_int n
      in if d < 1 / 2 then n else if 1 / 2 < d then n + 1 else if even n then n else n + 1)"

text \<open>
  Rounding to nearest, ties to even, in the format with \<open>p\<close> significand bits and
  exponents from \<open>emin\<close> to \<open>emax\<close>: the real \<open>x\<close> becomes a multiple \<open>m * ulp\<close> of the
  unit in the last place of its binade (of the binade of \<open>emin\<close> for a subnormal), and an
  infinity when that multiple needs an exponent above \<open>emax\<close>.
\<close>

definition ieee_round :: "nat \<Rightarrow> int \<Rightarrow> int \<Rightarrow> real \<Rightarrow> ieee" where
  "ieee_round p emin emax x =
     (if x = 0 then Finite 0
      else
        let e = max (ilog2 \<bar>x\<bar>) emin;
            ulp = 2 powi (e - (int p - 1));
            m = round_to_even (x / ulp)
        in if emax < e \<or> (e = emax \<and> \<bar>m\<bar> = 2 ^ p)
           then (if 0 < x then PlusInfinity else MinusInfinity)
           else Finite (of_int m * ulp))"

text \<open>binary64, the \<^verbatim>\<open>double\<close> of the source, and binary32, its \<^verbatim>\<open>float\<close>.\<close>

definition double_round :: "real \<Rightarrow> ieee" where
  "double_round = ieee_round 53 (- 1022) 1023"

definition float_round :: "real \<Rightarrow> ieee" where
  "float_round = ieee_round 24 (- 126) 127"

text \<open>
  The unit in the last place that \<open>ieee_round\<close> uses for \<open>x\<close>, and the multiple of it
  that \<open>x\<close> is rounded to: the result of \<open>ieee_round\<close> where it is finite.
\<close>

definition ulp_of :: "nat \<Rightarrow> int \<Rightarrow> real \<Rightarrow> real" where
  "ulp_of p emin x = 2 powi (max (ilog2 \<bar>x\<bar>) emin - (int p - 1))"


fun ieee_negative :: "ieee \<Rightarrow> bool" where
  "ieee_negative (Finite a) = (a < 0)"
| "ieee_negative MinusInfinity = True"
| "ieee_negative PlusInfinity = False"
| "ieee_negative NaN = False"

definition signed_infinity :: "bool \<Rightarrow> ieee" where
  "signed_infinity negative = (if negative then MinusInfinity else PlusInfinity)"

text \<open>
  Product, quotient and sum of the standard, with the rounding \<open>rnd\<close> of the format of
  the result.  A zero divisor is taken as \<open>+0\<close>.
\<close>

fun ieee_times :: "(real \<Rightarrow> ieee) \<Rightarrow> ieee \<Rightarrow> ieee \<Rightarrow> ieee" where
  "ieee_times rnd NaN y = NaN"
| "ieee_times rnd x NaN = NaN"
| "ieee_times rnd (Finite a) (Finite b) = rnd (a * b)"
| "ieee_times rnd x y =
     (if x = Finite 0 \<or> y = Finite 0 then NaN
      else signed_infinity (ieee_negative x \<noteq> ieee_negative y))"

fun ieee_divide :: "(real \<Rightarrow> ieee) \<Rightarrow> ieee \<Rightarrow> ieee \<Rightarrow> ieee" where
  "ieee_divide rnd NaN y = NaN"
| "ieee_divide rnd x NaN = NaN"
| "ieee_divide rnd (Finite a) (Finite b) =
     (if b = 0 then (if a = 0 then NaN else signed_infinity (a < 0)) else rnd (a / b))"
| "ieee_divide rnd (Finite a) y = Finite 0"
| "ieee_divide rnd x (Finite b) = signed_infinity (ieee_negative x \<noteq> (b < 0))"
| "ieee_divide rnd x y = NaN"

fun ieee_plus :: "(real \<Rightarrow> ieee) \<Rightarrow> ieee \<Rightarrow> ieee \<Rightarrow> ieee" where
  "ieee_plus rnd NaN y = NaN"
| "ieee_plus rnd x NaN = NaN"
| "ieee_plus rnd (Finite a) (Finite b) = rnd (a + b)"
| "ieee_plus rnd (Finite a) y = y"
| "ieee_plus rnd x (Finite b) = x"
| "ieee_plus rnd x y = (if x = y then x else NaN)"

text \<open>The conversion of a \<^verbatim>\<open>double\<close> to \<^verbatim>\<open>float\<close>.\<close>

fun double_to_float :: "ieee \<Rightarrow> ieee" where
  "double_to_float (Finite a) = float_round a"
| "double_to_float x = x"

text \<open>
  The arithmetic of Mix.cpp on these values: \<^verbatim>\<open>a / b\<close> on doubles; \<^verbatim>\<open>x * g\<close> and
  \<^verbatim>\<open>d + y\<close> on floats; and \<^verbatim>\<open>x *= e\<close> for a float \<open>x\<close> and a double \<open>e\<close>, where \<open>x\<close> is
  promoted, the product is a double and the assignment converts it back.
\<close>

definition double_divide :: "ieee \<Rightarrow> ieee \<Rightarrow> ieee" where
  "double_divide = ieee_divide double_round"

definition float_times :: "ieee \<Rightarrow> ieee \<Rightarrow> ieee" where
  "float_times = ieee_times float_round"

definition float_plus :: "ieee \<Rightarrow> ieee \<Rightarrow> ieee" where
  "float_plus = ieee_plus float_round"

definition float_times_double :: "ieee \<Rightarrow> ieee \<Rightarrow> ieee" where
  "float_times_double x e = double_to_float (ieee_times double_round x e)"


fun ieee_le :: "ieee \<Rightarrow> ieee \<Rightarrow> bool" where
  "ieee_le NaN y = False"
| "ieee_le x NaN = False"
| "ieee_le (Finite a) (Finite b) = (a \<le> b)"
| "ieee_le MinusInfinity y = True"
| "ieee_le x PlusInfinity = True"
| "ieee_le x y = False"


subsection \<open>The interfaces the engine consumes\<close>

text \<open>\<^verbatim>\<open>Track::ChannelType\<close>.\<close>

datatype ChannelType = LeftChannel | RightChannel | MonoChannel

text \<open>
  What \<^verbatim>\<open>SampleTrackCache::GetFloats(start, len, mayThrow)\<close> gives back: a pointer to
  \<open>len\<close> floats, the null pointer, or (possible with \<open>mayThrow\<close>) an exception.
\<close>

datatype floats_result = Floats "ieee list" | NullFloats | ReadThrows

text \<open>
  A \<^verbatim>\<open>SampleTrack\<close> as the engine sees it.  \<open>NChannels\<close> is
  \<^verbatim>\<open>TrackList::Channels(track).size()\<close>; \<open>GetEnvelopeValues track len t0\<close> are the values
  the call writes to the front of its output buffer.
\<close>

record SampleTrack =
  GetRate :: real
  GetStartTime :: real
  GetEndTime :: real
  TimeToLongSamples :: "real \<Rightarrow> int"
  GetFloats :: "int \<Rightarrow> nat \<Rightarrow> bool \<Rightarrow> floats_result"
  GetEnvelopeValues :: "nat \<Rightarrow> real \<Rightarrow> ieee list"
  GetChannel :: ChannelType
  GetChannelGain :: "nat \<Rightarrow> ieee"
  NChannels :: nat

record BoundedEnvelope =
  GetRangeLower :: real
  GetRangeUpper :: real
  AverageOfInverse :: "real \<Rightarrow> real \<Rightarrow> real"

text \<open>
  The resampler library (class \<^verbatim>\<open>Resample\<close>) over its hidden state \<open>'r\<close>:
  \<open>Resample_new highQuality minFactor maxFactor\<close> constructs one, and
  \<open>Resample_Process r factor inBuffer lastFlag outBufferLen\<close> gives the number of input
  samples used, the samples written to the output buffer (their number is the second
  component of the pair the C++ returns) and the resampler afterwards.
\<close>

record 'r Resample =
  Resample_new :: "bool \<Rightarrow> ieee \<Rightarrow> ieee \<Rightarrow> 'r"
  Resample_Process :: "'r \<Rightarrow> real \<Rightarrow> ieee list \<Rightarrow> bool \<Rightarrow> nat \<Rightarrow> nat \<times> ieee list \<times> 'r"

subsection \<open>MixerOptions::Warp and MixerOptions::ResampleParameters\<close>

record Warp =
  envelope :: "BoundedEnvelope option"
  minSpeed :: real
  maxSpeed :: real
  initialSpeed :: real


text \<open>\<^verbatim>\<open>Warp::Warp(double min, double max, double initial)\<close> (Mix.cpp 41-49).\<close>

definition Warp_speeds :: "real \<Rightarrow> real \<Rightarrow> real \<Rightarrow> Warp" where
  "Warp_speeds mn mx initial =
     \<lparr>envelope = None, minSpeed = max 0 (min mn mx), maxSpeed = max 0 (max mn mx),
      initialSpeed = initial\<rparr>"

record ResampleParameters =
  mbVariableRates :: bool
  mMinFactor :: "ieee list"
  mMaxFactor :: "ieee list"

text \<open>The loop of the constructor (Mix.cpp 56-76), one track per step.\<close>

fun ResampleParameters_loop ::
  "SampleTrack list \<Rightarrow> real \<Rightarrow> Warp \<Rightarrow> ResampleParameters \<Rightarrow> ResampleParameters" where
  "ResampleParameters_loop [] rate options p = p"
| "ResampleParameters_loop (pTrack # rest) rate options p =
     (let factor = double_divide (Finite rate) (Finite (GetRate pTrack)) in
      ResampleParameters_loop rest rate options
        (case envelope options of
           Some env \<Rightarrow>
             p\<lparr>mbVariableRates := True,
               mMinFactor := mMinFactor p @ [double_divide factor (Finite (GetRangeUpper env))],
               mMaxFactor := mMaxFactor p @ [double_divide factor (Finite (GetRangeLower env))]\<rparr>
         | None \<Rightarrow>
             if minSpeed options > 0 \<and> maxSpeed options > 0 then
               p\<lparr>mbVariableRates := True,
                 mMinFactor := mMinFactor p @ [double_divide factor (Finite (maxSpeed options))],
                 mMaxFactor := mMaxFactor p @ [double_divide factor (Finite (minSpeed options))]\<rparr>
             else
               p\<lparr>mbVariableRates := False,
                 mMinFactor := mMinFactor p @ [factor],
                 mMaxFactor := mMaxFactor p @ [factor]\<rparr>))"

text \<open>\<^verbatim>\<open>ResampleParameters::ResampleParameters\<close> (Mix.cpp 51-77); the flag starts at its
  in-class default, false.\<close>

definition ResampleParameters_new :: "SampleTrack list \<Rightarrow> real \<Rightarrow> Warp \<Rightarrow> ResampleParameters" where
  "ResampleParameters_new inputTracks rate options =
     ResampleParameters_loop inputTracks rate options
       \<lparr>mbVariableRates = False, mMinFactor = [], mMaxFactor = []\<rparr>"


subsection \<open>The Mixer object\<close>

text \<open>
  The data members of class \<^verbatim>\<open>Mixer\<close> that Mix.cpp reads and writes.  The class constants
  \<^verbatim>\<open>sProcessLen\<close> and \<^verbatim>\<open>sQueueMaxLen\<close> are declared in Mix.h, which is not among the
  sources: they are carried as fields.  \<^verbatim>\<open>mFormat\<close> and \<^verbatim>\<open>mBuffer\<close>, which only the
  final format conversion (\<^verbatim>\<open>CopySamples\<close>, with dither) touches, are left out.
\<close>

record 'r Mixer =
  mNumInputTracks :: nat
  mNumChannels :: nat
  mBufferSize :: nat
  mRate :: real
  mEnvelope :: "BoundedEnvelope option"
  mResampleParameters :: ResampleParameters
  mApplyTrackGains :: bool
  mMixerSpec :: "Downmix option"
  mHighQuality :: bool
  mInterleaved :: bool
  mMayThrow :: bool
  mInputTrack :: "SampleTrack list"
  mSamplePos :: "int list"
  mT0 :: real
  mT1 :: real
  mTime :: real
  mSampleQueue :: "ieee list list"
  mQueueStart :: "int list"
  mQueueLen :: "int list"
  mFloatBuffers :: "ieee list list"
  mTemp :: "ieee list list"
  mEnvValues :: "ieee list"
  mResample :: "'r list"
  mSpeed :: real
  sProcessLen :: nat
  sQueueMaxLen :: nat

text \<open>The sizes the constructor gives the per-input vectors.\<close>

definition Mixer_wf :: "'r Mixer \<Rightarrow> bool" where
  "Mixer_wf s \<longleftrightarrow>
     length (mInputTrack s) = mNumInputTracks s \<and>
     length (mSamplePos s) = mNumInputTracks s \<and>
     length (mSampleQueue s) = mNumInputTracks s \<and>
     length (mQueueStart s) = mNumInputTracks s \<and>
     length (mQueueLen s) = mNumInputTracks s \<and>
     length (mResample s) = mNumInputTracks s"

text \<open>
  How a call ends: it returns, a sample read throws (the exception leaves through every
  frame of Mix.cpp, so the object stays as it was at the read), or the run has not
  finished (a loop did not end within its fuel, or cannot end).
\<close>

datatype ('a, 's) outcome = Done 'a | Raised 's | Unfinished

text \<open>Observers of an outcome: the value a call returned, and the object it left.\<close>

fun returned :: "('a \<times> 's, 's) outcome \<Rightarrow> 'a option" where
  "returned (Done (n, s)) = Some n"
| "returned (Raised s) = None"
| "returned Unfinished = None"

fun left_object :: "('a \<times> 's, 's) outcome \<Rightarrow> 's option" where
  "left_object (Done (n, s)) = Some s"
| "left_object (Raised s) = Some s"
| "left_object Unfinished = None"

text \<open>\<^verbatim>\<open>Mixer::MakeResamplers\<close> (Mix.cpp 168-173).\<close>

definition MakeResamplers :: "'r Resample \<Rightarrow> 'r Mixer \<Rightarrow> 'r Mixer" where
  "MakeResamplers R s =
     s\<lparr>mResample :=
         fold (\<lambda>i rs. rs[i :=
                 Resample_new R (mHighQuality s)
                   (mMinFactor (mResampleParameters s) ! i)
                   (mMaxFactor (mResampleParameters s) ! i)])
           [0..<mNumInputTracks s] (mResample s)\<rparr>"

text \<open>
  \<^verbatim>\<open>Mixer::Mixer\<close> (Mix.cpp 97-162).  \<open>P\<close> and \<open>Q\<close> are the class constants
  \<^verbatim>\<open>sProcessLen\<close> and \<^verbatim>\<open>sQueueMaxLen\<close>; \<open>r0\<close> is the empty resampler slot before
  \<^verbatim>\<open>MakeResamplers\<close> fills it.
\<close>

definition Mixer_new ::
  "'r Resample \<Rightarrow> 'r \<Rightarrow> nat \<Rightarrow> nat \<Rightarrow> SampleTrack list \<Rightarrow> bool \<Rightarrow> Warp \<Rightarrow> real \<Rightarrow> real \<Rightarrow>
   nat \<Rightarrow> nat \<Rightarrow> bool \<Rightarrow> real \<Rightarrow> bool \<Rightarrow> Downmix option \<Rightarrow> bool \<Rightarrow> 'r Mixer" where
  "Mixer_new R r0 P Q inputTracks mayThrow warpOptions startTime stopTime
       numOutChannels outBufferSize outInterleaved outRate highQuality mixerSpec
       applyTrackGains =
     MakeResamplers R
       \<lparr>mNumInputTracks = length inputTracks,
        mNumChannels = numOutChannels,
        mBufferSize = outBufferSize,
        mRate = outRate,
        mEnvelope = envelope warpOptions,
        mResampleParameters = ResampleParameters_new inputTracks outRate warpOptions,
        mApplyTrackGains = applyTrackGains,
        mMixerSpec =
          (case mixerSpec of
             Some spec \<Rightarrow>
               if Downmix.mNumChannels spec = numOutChannels \<and>
                  mNumTracks spec = length inputTracks
               then Some spec else None
           | None \<Rightarrow> None),
        mHighQuality = highQuality,
        mInterleaved = outInterleaved,
        mMayThrow = mayThrow,
        mInputTrack = inputTracks,
        mSamplePos = map (\<lambda>track. TimeToLongSamples track startTime) inputTracks,
        mT0 = startTime,
        mT1 = stopTime,
        mTime = startTime,
        mSampleQueue = replicate (length inputTracks) (replicate Q (Finite 0)),
        mQueueStart = replicate (length inputTracks) 0,
        mQueueLen = replicate (length inputTracks) 0,
        mFloatBuffers = [replicate (outBufferSize + 1) (Finite 0),
                         replicate (outBufferSize + 1) (Finite 0)],
        mTemp = replicate numOutChannels (replicate outBufferSize (Finite 0)),
        mEnvValues = replicate (max Q outBufferSize) (Finite 0),
        mResample = replicate (length inputTracks) r0,
        mSpeed = initialSpeed warpOptions,
        sProcessLen = P,
        sQueueMaxLen = Q\<rparr>"

text \<open>\<^verbatim>\<open>Mixer::Clear\<close> (Mix.cpp 175-179).\<close>

definition Clear :: "'r Mixer \<Rightarrow> 'r Mixer" where
  "Clear s = s\<lparr>mTemp := map (\<lambda>buffer. replicate (length buffer) (Finite 0)) (mTemp s)\<rparr>"

text \<open>\<^verbatim>\<open>MixBuffers\<close> (Mix.cpp 181-194); the result is \<open>dests\<close> after the call.\<close>

definition MixBuffers ::
  "nat \<Rightarrow> bool list \<Rightarrow> ieee list \<Rightarrow> ieee list \<Rightarrow> ieee list list \<Rightarrow> nat \<Rightarrow> ieee list list" where
  "MixBuffers numChannels channelFlags gains src dests len =
     fold (\<lambda>c ds.
             if \<not> channelFlags ! c then ds
             else ds[c := fold (\<lambda>j dest.
                                  dest[j := float_plus (dest ! j) (float_times (src ! j) (gains ! c))])
                            [0..<len] (ds ! c)])
       [0..<numChannels] dests"

text \<open>
  The pattern \<^verbatim>\<open>if (results) memcpy(dst, results, n) else memset(dst, 0, n)\<close> that follows
  each \<^verbatim>\<open>GetFloats\<close>, with \<open>dst = &buf[off]\<close>.
\<close>

definition store_floats :: "ieee list \<Rightarrow> nat \<Rightarrow> nat \<Rightarrow> floats_result \<Rightarrow> ieee list" where
  "store_floats buf off n results =
     copy_into buf off
       (case results of Floats xs \<Rightarrow> take n xs | _ \<Rightarrow> replicate n (Finite 0))"

text \<open>\<^verbatim>\<open>for (i = 0; i < n; i++) buf[off + i] *= envValues[i];\<close>\<close>

definition apply_envelope :: "ieee list \<Rightarrow> nat \<Rightarrow> nat \<Rightarrow> ieee list \<Rightarrow> ieee list" where
  "apply_envelope buf off n envValues =
     fold (\<lambda>i b. b[off + i := float_times_double (b ! (off + i)) (envValues ! i)]) [0..<n] buf"

text \<open>
  \<^verbatim>\<open>Mixer::MixSameRate(ii, maxOut, floatBuffer)\<close> (Mix.cpp 359-415); \<open>fb\<close> says which of
  the two \<^verbatim>\<open>mFloatBuffers\<close> the caller passed.  The result is the returned count and the
  object after the call.
\<close>

definition MixSameRate ::
  "nat \<Rightarrow> nat \<Rightarrow> nat \<Rightarrow> 'r Mixer \<Rightarrow> (nat \<times> 'r Mixer, 'r Mixer) outcome" where
  "MixSameRate ii maxOut fb s =
     (let track = mInputTrack s ! ii;
          pos = mSamplePos s ! ii;
          pFloat = mFloatBuffers s ! fb;
          t = real_of_int pos / GetRate track;
          trackEndTime = GetEndTime track;
          trackStartTime = GetStartTime track;
          backwards = (mT1 s < mT0 s);
          tEnd = (if backwards then max trackStartTime (mT1 s) else min trackEndTime (mT1 s))
      in
      if (if backwards then t \<le> tEnd else t \<ge> tEnd) then Done (0, s)
      else
        let slen = limitSampleBufferSize maxOut
                     (sampleCount_of_double
                        ((if backwards then t - tEnd else tEnd - t) * GetRate track + 0.5))
        in
        if backwards then
          (case GetFloats track (pos - (int slen - 1)) slen (mMayThrow s) of
             ReadThrows \<Rightarrow> Raised s
           | results \<Rightarrow>
               let pFloat1 = store_floats pFloat 0 slen results;
                   env = copy_into (mEnvValues s) 0
                           (take slen (GetEnvelopeValues track slen
                              (t - real (size_t_of_int (int slen - 1)) / mRate s)));
                   pFloat2 = apply_envelope pFloat1 0 slen env;
                   pFloat3 = ReverseSamples pFloat2 0 slen
               in Done (slen,
                    s\<lparr>mFloatBuffers := (mFloatBuffers s)[fb := pFloat3],
                      mEnvValues := env,
                      mSamplePos := (mSamplePos s)[ii := pos - int slen]\<rparr>))
        else
          (case GetFloats track pos slen (mMayThrow s) of
             ReadThrows \<Rightarrow> Raised s
           | results \<Rightarrow>
               let pFloat1 = store_floats pFloat 0 slen results;
                   env = copy_into (mEnvValues s) 0
                           (take slen (GetEnvelopeValues track slen t));
                   pFloat2 = apply_envelope pFloat1 0 slen env
               in Done (slen,
                    s\<lparr>mFloatBuffers := (mFloatBuffers s)[fb := pFloat2],
                      mEnvValues := env,
                      mSamplePos := (mSamplePos s)[ii := pos + int slen]\<rparr>)))"

text \<open>\<^verbatim>\<open>ComputeWarpFactor\<close> (Mix.cpp 209-212).\<close>

definition ComputeWarpFactor :: "BoundedEnvelope \<Rightarrow> real \<Rightarrow> real \<Rightarrow> real" where
  "ComputeWarpFactor env t0 t1 = AverageOfInverse env t0 t1"

text \<open>
  The refill of the queue of input \<open>ii\<close>: the body of
  \<^verbatim>\<open>if (*queueLen < (int)sProcessLen) { \<dots> }\<close> in \<^verbatim>\<open>MixVariableRates\<close> (Mix.cpp 259-306).
\<close>

definition refill_queue :: "nat \<Rightarrow> 'r Mixer \<Rightarrow> ('r Mixer, 'r Mixer) outcome" where
  "refill_queue ii s =
     (let track = mInputTrack s ! ii;
          pos = mSamplePos s ! ii;
          queueLen = mQueueLen s ! ii;
          trackRate = GetRate track;
          backwards = (mT1 s < mT0 s);
          tEnd = (if backwards then max (GetStartTime track) (mT1 s)
                  else min (GetEndTime track) (mT1 s));
          endPos = TimeToLongSamples track tEnd;
          queue1 = copy_into (mSampleQueue s ! ii) 0
                     (take (nat queueLen) (drop (nat (mQueueStart s ! ii)) (mSampleQueue s ! ii)));
          s1 = s\<lparr>mSampleQueue := (mSampleQueue s)[ii := queue1],
                 mQueueStart := (mQueueStart s)[ii := 0]\<rparr>;
          getLen = limitSampleBufferSize (size_t_of_int (int (sQueueMaxLen s) - queueLen))
                     (if backwards then pos - endPos else endPos - pos)
      in
      if getLen > 0 then
        (case GetFloats track (if backwards then pos - (int getLen - 1) else pos) getLen
                (mMayThrow s) of
           ReadThrows \<Rightarrow> Raised s1
         | results \<Rightarrow>
             let queue2 = store_floats queue1 (nat queueLen) getLen results;
                 env = copy_into (mEnvValues s) 0
                         (take getLen (GetEnvelopeValues track getLen
                            (real_of_int (if backwards then pos - (int getLen - 1) else pos)
                               / trackRate)));
                 queue3 = apply_envelope queue2 (nat queueLen) getLen env;
                 queue4 = (if backwards then ReverseSamples queue3 (nat queueLen) getLen
                           else queue3)
             in Done
                  (s1\<lparr>mSampleQueue := (mSampleQueue s1)[ii := queue4],
                      mEnvValues := env,
                      mSamplePos := (mSamplePos s1)[ii :=
                         (if backwards then pos - int getLen else pos + int getLen)],
                      mQueueLen := (mQueueLen s1)[ii := queueLen + int getLen]\<rparr>))
      else Done s1)"

text \<open>
  The rest of the loop body of \<^verbatim>\<open>MixVariableRates\<close> (Mix.cpp 308-348): one slice of the
  queue goes through the resampler, which writes to \<^verbatim>\<open>&pFloat[out]\<close>.  The result is
  \<open>last\<close>, the new \<open>out\<close> and \<open>t\<close>, and the object.  The locals computed before the
  loop (\<open>trackRate\<close>, \<open>initialWarp\<close>, \<open>tstep\<close>, \<open>backwards\<close>) depend only on members
  the loop does not write and are read from the object here.
\<close>

definition resample_slice ::
  "'r Resample \<Rightarrow> nat \<Rightarrow> nat \<Rightarrow> nat \<Rightarrow> nat \<Rightarrow> real \<Rightarrow> 'r Mixer \<Rightarrow> bool \<times> nat \<times> real \<times> 'r Mixer" where
  "resample_slice R ii maxOut fb out t s =
     (let track = mInputTrack s ! ii;
          trackRate = GetRate track;
          initialWarp = mRate s / mSpeed s / trackRate;
          tstep = 1 / trackRate;
          backwards = (mT1 s < mT0 s);
          queueLen = mQueueLen s ! ii;
          queueStart = mQueueStart s ! ii;
          last = (queueLen < int (sProcessLen s));
          thisProcessLen = (if last then size_t_of_int queueLen else sProcessLen s);
          factor =
            (case mEnvelope s of
               Some env \<Rightarrow>
                 if backwards then
                   initialWarp * ComputeWarpFactor env
                     (t - real thisProcessLen / trackRate + tstep) (t + tstep)
                 else
                   initialWarp * ComputeWarpFactor env t (t + real thisProcessLen / trackRate)
             | None \<Rightarrow> initialWarp);
          results = Resample_Process R (mResample s ! ii) factor
                      (take thisProcessLen (drop (nat queueStart) (mSampleQueue s ! ii)))
                      last (maxOut - out);
          input_used = fst results;
          produced = fst (snd results)
      in (last,
          out + length produced,
          t + (real input_used / trackRate) * (if backwards then - 1 else 1),
          s\<lparr>mResample := (mResample s)[ii := snd (snd results)],
            mFloatBuffers := (mFloatBuffers s)[fb := copy_into (mFloatBuffers s ! fb) out produced],
            mQueueStart := (mQueueStart s)[ii := queueStart + int input_used],
            mQueueLen := (mQueueLen s)[ii := queueLen - int input_used]\<rparr>))"

text \<open>
  The loop \<^verbatim>\<open>while (out < maxOut) { \<dots> }\<close> of \<^verbatim>\<open>MixVariableRates\<close> (Mix.cpp 258-353).
  Whether it ends depends on the resampler, so it runs on fuel: one unit per iteration.
\<close>

fun MixVariableRates_loop ::
  "nat \<Rightarrow> 'r Resample \<Rightarrow> nat \<Rightarrow> nat \<Rightarrow> nat \<Rightarrow> nat \<Rightarrow> real \<Rightarrow> 'r Mixer \<Rightarrow>
   (nat \<times> 'r Mixer, 'r Mixer) outcome" where
  "MixVariableRates_loop 0 R ii maxOut fb out t s =
     (if out < maxOut then Unfinished else Done (out, s))"
| "MixVariableRates_loop (Suc fuel) R ii maxOut fb out t s =
     (if out < maxOut then
        (case (if mQueueLen s ! ii < int (sProcessLen s) then refill_queue ii s else Done s) of
           Raised s' \<Rightarrow> Raised s'
         | Unfinished \<Rightarrow> Unfinished
         | Done s1 \<Rightarrow>
             (case resample_slice R ii maxOut fb out t s1 of
                (isLast, out', t', s2) \<Rightarrow>
                  if isLast then Done (out', s2)
                  else MixVariableRates_loop fuel R ii maxOut fb out' t' s2))
      else Done (out, s))"

text \<open>\<^verbatim>\<open>Mixer::MixVariableRates(ii, maxOut, floatBuffer)\<close> (Mix.cpp 216-357).\<close>

definition MixVariableRates ::
  "nat \<Rightarrow> 'r Resample \<Rightarrow> nat \<Rightarrow> nat \<Rightarrow> nat \<Rightarrow> 'r Mixer \<Rightarrow> (nat \<times> 'r Mixer, 'r Mixer) outcome" where
  "MixVariableRates fuel R ii maxOut fb s =
     (let track = mInputTrack s ! ii;
          trackRate = GetRate track;
          backwards = (mT1 s < mT0 s);
          t = real_of_int
                (mSamplePos s ! ii + (if backwards then mQueueLen s ! ii else - (mQueueLen s ! ii)))
              / trackRate
      in MixVariableRates_loop fuel R ii maxOut fb 0 t s)"

text \<open>The lambda \<^verbatim>\<open>findChannelFlags\<close> of \<^verbatim>\<open>Mixer::Process\<close> (Mix.cpp 436-459).\<close>

definition findChannelFlags :: "nat \<Rightarrow> bool list option \<Rightarrow> ChannelType \<Rightarrow> bool list" where
  "findChannelFlags numChannels map' channel =
     (let channelFlags = replicate numChannels False in
      case map' of
        Some m \<Rightarrow> copy_into channelFlags 0 (take numChannels m)
      | None \<Rightarrow>
          (case channel of
             LeftChannel \<Rightarrow> channelFlags[0 := True]
           | RightChannel \<Rightarrow>
               if numChannels \<ge> 2 then channelFlags[1 := True] else channelFlags[0 := True]
           | MonoChannel \<Rightarrow> replicate numChannels True))"

text \<open>
  The choice between the two routines for input \<open>ii\<close> (Mix.cpp 485-488), writing to
  \<^verbatim>\<open>mFloatBuffers[j]\<close>.
\<close>

definition mix_input ::
  "nat \<Rightarrow> 'r Resample \<Rightarrow> nat \<Rightarrow> nat \<Rightarrow> nat \<Rightarrow> 'r Mixer \<Rightarrow> (nat \<times> 'r Mixer, 'r Mixer) outcome" where
  "mix_input fuel R ii maxToProcess j s =
     (if mbVariableRates (mResampleParameters s) \<or> GetRate (mInputTrack s ! ii) \<noteq> mRate s
      then MixVariableRates fuel R ii maxToProcess j s
      else MixSameRate ii maxToProcess j s)"

text \<open>
  The first inner loop of \<^verbatim>\<open>Process\<close> (Mix.cpp 479-495) over the channels \<open>j\<close> of the
  group that starts at input \<open>i\<close>; it carries \<open>maxOut\<close>, \<open>newTime\<close> and the array
  \<open>mixed\<close>.
\<close>

fun mix_group ::
  "nat \<Rightarrow> 'r Resample \<Rightarrow> nat \<Rightarrow> bool \<Rightarrow> nat \<Rightarrow> nat list \<Rightarrow> nat \<times> real \<times> (nat \<Rightarrow> nat) \<Rightarrow> 'r Mixer \<Rightarrow>
   ((nat \<times> real \<times> (nat \<Rightarrow> nat)) \<times> 'r Mixer, 'r Mixer) outcome" where
  "mix_group fuel R maxToProcess backwards i [] acc s = Done (acc, s)"
| "mix_group fuel R maxToProcess backwards i (j # js) (maxOut, newTime, mixed) s =
     (let ii = i + j;
          track = mInputTrack s ! ii
      in
      case mix_input fuel R ii maxToProcess j s of
        Raised s' \<Rightarrow> Raised s'
      | Unfinished \<Rightarrow> Unfinished
      | Done (result, s') \<Rightarrow>
          let newT = real_of_int (mSamplePos s' ! ii) / GetRate track
          in mix_group fuel R maxToProcess backwards i js
               (max maxOut result,
                (if backwards then min newTime newT else max newTime newT),
                mixed(j := result)) s')"

text \<open>The second inner loop of \<^verbatim>\<open>Process\<close> (Mix.cpp 499-513); it carries \<open>gains\<close>.\<close>

fun accumulate_group ::
  "nat \<Rightarrow> nat list \<Rightarrow> (nat \<Rightarrow> nat) \<Rightarrow> ieee list \<Rightarrow> 'r Mixer \<Rightarrow> ieee list \<times> 'r Mixer" where
  "accumulate_group i [] mixed gains s = (gains, s)"
| "accumulate_group i (j # js) mixed gains s =
     (let pFloat = mFloatBuffers s ! j;
          result = mixed j;
          ii = i + j;
          track = mInputTrack s ! ii;
          gains' = (if mApplyTrackGains s
                    then map (GetChannelGain track) [0..<mNumChannels s] else gains);
          flags = findChannelFlags (mNumChannels s)
                    (case mMixerSpec s of Some spec \<Rightarrow> Some (mMap spec ! ii) | None \<Rightarrow> None)
                    (GetChannel track)
      in accumulate_group i js mixed gains'
           (s\<lparr>mTemp := MixBuffers (mNumChannels s) flags gains' pFloat (mTemp s) result\<rparr>))"

text \<open>
  The loop over the leaders (Mix.cpp 467-514); \<open>n\<close> is \<^verbatim>\<open>mNumInputTracks\<close>, which
  nothing writes after the constructor.  A group of no channels leaves \<open>i\<close> where it is, so
  the loop of the source never ends there.
\<close>

function process_tracks ::
  "nat \<Rightarrow> 'r Resample \<Rightarrow> nat \<Rightarrow> bool \<Rightarrow> nat \<Rightarrow> nat \<Rightarrow>
   nat \<times> real \<times> (nat \<Rightarrow> nat) \<times> ieee list \<Rightarrow> 'r Mixer \<Rightarrow>
   ((nat \<times> real \<times> (nat \<Rightarrow> nat) \<times> ieee list) \<times> 'r Mixer, 'r Mixer) outcome" where
  "process_tracks fuel R maxToProcess backwards n i (maxOut, newTime, mixed, gains) s =
     (if i < n then
        (let leader = mInputTrack s ! i;
             nInChannels = NChannels leader
         in
         if i + nInChannels > n then Done ((maxOut, newTime, mixed, gains), s)
         else if nInChannels = 0 then Unfinished
         else
           (case mix_group fuel R maxToProcess backwards i [0..<min nInChannels 2]
                   (maxOut, newTime, mixed) s of
              Raised s' \<Rightarrow> Raised s'
            | Unfinished \<Rightarrow> Unfinished
            | Done ((maxOut', newTime', mixed'), s') \<Rightarrow>
                (case accumulate_group i [0..<min nInChannels 2] mixed' gains s' of
                   (gains', s'') \<Rightarrow>
                     process_tracks fuel R maxToProcess backwards n (i + nInChannels)
                       (maxOut', newTime', mixed', gains') s'')))
      else Done ((maxOut, newTime, mixed, gains), s))"
  by pat_completeness auto
termination
  by (relation "measure (\<lambda>(fuel, R, maxToProcess, backwards, n, i, acc, s). n - i)") auto

declare process_tracks.simps [simp del]

text \<open>
  \<^verbatim>\<open>Mixer::Process(maxToProcess)\<close> (Mix.cpp 419-537), up to the conversion of \<^verbatim>\<open>mTemp\<close>
  to the output format.  \<open>gains\<close> starts as all ones when track gains are not applied and
  is otherwise written for each track before it is read.
\<close>

definition Process ::
  "nat \<Rightarrow> 'r Resample \<Rightarrow> nat \<Rightarrow> 'r Mixer \<Rightarrow> (nat \<times> 'r Mixer, 'r Mixer) outcome" where
  "Process fuel R maxToProcess s =
     (let gains = replicate (mNumChannels s) (Finite 1);
          newTime = mTime s;
          backwards = (mT0 s > mT1 s);
          s1 = Clear s
      in
      case process_tracks fuel R maxToProcess backwards (mNumInputTracks s1) 0
             (0, newTime, (\<lambda>j. 0), gains) s1 of
        Raised s' \<Rightarrow> Raised s'
      | Unfinished \<Rightarrow> Unfinished
      | Done ((maxOut, newTime', mixed, gains'), s2) \<Rightarrow>
          Done (maxOut,
            s2\<lparr>mTime := (if backwards then std_clamp newTime' (mT1 s2) (mTime s2)
                          else std_clamp newTime' (mTime s2) (mT1 s2))\<rparr>))"

text \<open>\<^verbatim>\<open>Mixer::MixGetCurrentTime\<close> (Mix.cpp 549-552).\<close>

definition MixGetCurrentTime :: "'r Mixer \<Rightarrow> real" where
  "MixGetCurrentTime s = mTime s"

text \<open>The loop of \<^verbatim>\<open>Reposition\<close> over the inputs (Mix.cpp 585-589).\<close>

definition Reposition_loop :: "nat list \<Rightarrow> 'r Mixer \<Rightarrow> 'r Mixer" where
  "Reposition_loop is s =
     fold (\<lambda>i s'.
             s'\<lparr>mSamplePos := (mSamplePos s')[i :=
                    TimeToLongSamples (mInputTrack s' ! i) (mTime s')],
                mQueueStart := (mQueueStart s')[i := 0],
                mQueueLen := (mQueueLen s')[i := 0]\<rparr>) is s"

text \<open>\<^verbatim>\<open>Mixer::Reposition(t, bSkipping)\<close> (Mix.cpp 576-597).\<close>

definition Reposition :: "'r Resample \<Rightarrow> real \<Rightarrow> bool \<Rightarrow> 'r Mixer \<Rightarrow> 'r Mixer" where
  "Reposition R t bSkipping s =
     (let backwards = (mT1 s < mT0 s);
          s1 = s\<lparr>mTime := (if backwards then std_clamp t (mT1 s) (mT0 s)
                           else std_clamp t (mT0 s) (mT1 s))\<rparr>;
          s2 = Reposition_loop [0..<mNumInputTracks s1] s1
      in if bSkipping then MakeResamplers R s2 else s2)"

text \<open>\<^verbatim>\<open>Mixer::SetTimesAndSpeed\<close> (Mix.cpp 599-606).\<close>

definition SetTimesAndSpeed ::
  "'r Resample \<Rightarrow> real \<Rightarrow> real \<Rightarrow> real \<Rightarrow> bool \<Rightarrow> 'r Mixer \<Rightarrow> 'r Mixer" where
  "SetTimesAndSpeed R t0 t1 speed bSkipping s =
     Reposition R t0 bSkipping (s\<lparr>mT0 := t0, mT1 := t1, mSpeed := \<bar>speed\<bar>\<rparr>)"

text \<open>\<^verbatim>\<open>Mixer::SetSpeedForKeyboardScrubbing\<close> (Mix.cpp 608-630).\<close>

definition SetSpeedForKeyboardScrubbing :: "'r Resample \<Rightarrow> real \<Rightarrow> real \<Rightarrow> 'r Mixer \<Rightarrow> 'r Mixer" where
  "SetSpeedForKeyboardScrubbing R speed startTime s =
     (let s1 =
        (if (speed > 0 \<and> mT1 s < mT0 s) \<or> (speed < 0 \<and> mT1 s > mT0 s) then
           Reposition R startTime True
             (if speed > 0 \<and> mT1 s < mT0 s
              then s\<lparr>mT0 := 0, mT1 := numeric_limits_double_max\<rparr>
              else s\<lparr>mT0 := numeric_limits_double_max, mT1 := 0\<rparr>)
         else s)
      in s1\<lparr>mSpeed := \<bar>speed\<bar>\<rparr>)"

subsection \<open>Predicates of the statements\<close>

text \<open>
  \<open>mix_frame s s'\<close>: the object \<open>s'\<close> differs from \<open>s\<close> at most in what the mixing
  routines write, that is the cursors, the queues, the resamplers and the scratch and
  accumulator buffers; and the per-input vectors have kept their sizes.
\<close>

definition mix_frame :: "'r Mixer \<Rightarrow> 'r Mixer \<Rightarrow> bool" where
  "mix_frame s s' \<longleftrightarrow>
     mNumInputTracks s' = mNumInputTracks s \<and> mNumChannels s' = mNumChannels s \<and>
     mBufferSize s' = mBufferSize s \<and> mRate s' = mRate s \<and> mEnvelope s' = mEnvelope s \<and>
     mResampleParameters s' = mResampleParameters s \<and>
     mApplyTrackGains s' = mApplyTrackGains s \<and> mMixerSpec s' = mMixerSpec s \<and>
     mHighQuality s' = mHighQuality s \<and> mInterleaved s' = mInterleaved s \<and>
     mMayThrow s' = mMayThrow s \<and> mInputTrack s' = mInputTrack s \<and>
     mT0 s' = mT0 s \<and> mT1 s' = mT1 s \<and> mTime s' = mTime s \<and> mSpeed s' = mSpeed s \<and>
     sProcessLen s' = sProcessLen s \<and> sQueueMaxLen s' = sQueueMaxLen s \<and>
     length (mSamplePos s') = length (mSamplePos s) \<and>
     length (mSampleQueue s') = length (mSampleQueue s) \<and>
     length (mQueueStart s') = length (mQueueStart s) \<and>
     length (mQueueLen s') = length (mQueueLen s) \<and>
     length (mResample s') = length (mResample s)"

text \<open>The test of \<^verbatim>\<open>MixSameRate\<close> (Mix.cpp 367-377) for input \<open>ii\<close>: its position time
  has reached or passed the effective end time.\<close>

definition at_end :: "'r Mixer \<Rightarrow> nat \<Rightarrow> bool" where
  "at_end s ii =
     (let track = mInputTrack s ! ii;
          t = real_of_int (mSamplePos s ! ii) / GetRate track;
          backwards = (mT1 s < mT0 s);
          tEnd = (if backwards then max (GetStartTime track) (mT1 s)
                  else min (GetEndTime track) (mT1 s))
      in if backwards then t \<le> tEnd else t \<ge> tEnd)"

text \<open>The test of \<^verbatim>\<open>Process\<close> (Mix.cpp 486) that sends input \<open>ii\<close> to \<^verbatim>\<open>MixSameRate\<close>.\<close>

definition same_rate :: "'r Mixer \<Rightarrow> nat \<Rightarrow> bool" where
  "same_rate s ii \<longleftrightarrow>
     \<not> (mbVariableRates (mResampleParameters s) \<or> GetRate (mInputTrack s ! ii) \<noteq> mRate s)"

text \<open>Every channel group has a member: \<^verbatim>\<open>TrackList::Channels(leader)\<close> contains the
  leader.\<close>

definition groups_ok :: "'r Mixer \<Rightarrow> bool" where
  "groups_ok s \<longleftrightarrow> list_all (\<lambda>track. 1 \<le> NChannels track) (mInputTrack s)"

text \<open>The current time lies in the play interval.\<close>

definition time_inv :: "'r Mixer \<Rightarrow> bool" where
  "time_inv s \<longleftrightarrow> min (mT0 s) (mT1 s) \<le> mTime s \<and> mTime s \<le> max (mT0 s) (mT1 s)"

text \<open>
  The contract of \<^verbatim>\<open>Resample::Process\<close> that Mix.cpp relies on
  (\<^verbatim>\<open>assert(out <= maxOut)\<close>): it writes at most \<open>outBufferLen\<close> samples and uses at
  most the samples it is given.
\<close>

definition Resample_bounded :: "'r Resample \<Rightarrow> bool" where
  "Resample_bounded R \<longleftrightarrow>
     (\<forall>r factor inBuffer lastFlag outBufferLen.
        fst (Resample_Process R r factor inBuffer lastFlag outBufferLen) \<le> length inBuffer \<and>
        length (fst (snd (Resample_Process R r factor inBuffer lastFlag outBufferLen)))
          \<le> outBufferLen)"

text \<open>
  The invariant of the queue of input \<open>ii\<close> (the sample queue of the spec): the vectors
  have a slot for the input, the queue has its capacity \<open>sQueueMaxLen\<close>, a \<^verbatim>\<open>size_t\<close>, and
  the live window lies inside it.
\<close>

definition queue_inv :: "'r Mixer \<Rightarrow> nat \<Rightarrow> bool" where
  "queue_inv s ii \<longleftrightarrow>
     ii < length (mSamplePos s) \<and> ii < length (mSampleQueue s) \<and>
     ii < length (mQueueStart s) \<and> ii < length (mQueueLen s) \<and>
     length (mSampleQueue s ! ii) = sQueueMaxLen s \<and> sQueueMaxLen s < 2 ^ 64 \<and>
     0 \<le> mQueueStart s ! ii \<and> 0 \<le> mQueueLen s ! ii \<and>
     mQueueStart s ! ii + mQueueLen s ! ii \<le> int (sQueueMaxLen s)"

text \<open>
  The distance \<^verbatim>\<open>backwards ? *pos - endPos : endPos - *pos\<close> from the cursor of input
  \<open>ii\<close> to the end of the play interval (Mix.cpp 250-253, 266), and the number of samples
  of the input that have not yet gone through the resampler: those in the queue and those
  still to be read.
\<close>

definition remaining_input :: "'r Mixer \<Rightarrow> nat \<Rightarrow> int" where
  "remaining_input s ii =
     (let track = mInputTrack s ! ii;
          backwards = (mT1 s < mT0 s);
          tEnd = (if backwards then max (GetStartTime track) (mT1 s)
                  else min (GetEndTime track) (mT1 s));
          endPos = TimeToLongSamples track tEnd
      in if backwards then mSamplePos s ! ii - endPos else endPos - mSamplePos s ! ii)"

definition pending_input :: "'r Mixer \<Rightarrow> nat \<Rightarrow> nat" where
  "pending_input s ii = nat (mQueueLen s ! ii) + nat (remaining_input s ii)"

text \<open>
  A resampler makes progress: given input and room for output, it uses a sample or
  writes one.
\<close>

definition Resample_progress :: "'r Resample \<Rightarrow> bool" where
  "Resample_progress R \<longleftrightarrow>
     (\<forall>r factor inBuffer lastFlag outBufferLen.
        inBuffer \<noteq> [] \<and> 0 < outBufferLen \<longrightarrow>
        0 < fst (Resample_Process R r factor inBuffer lastFlag outBufferLen) +
            length (fst (snd (Resample_Process R r factor inBuffer lastFlag outBufferLen))))"

text \<open>
  \<open>not_behind s s'\<close>: \<open>s'\<close> is \<open>s\<close> after some mixing, in which every queue has kept its
  invariant and no input has more samples pending than before.
\<close>

definition not_behind :: "'r Mixer \<Rightarrow> 'r Mixer \<Rightarrow> bool" where
  "not_behind s s' \<longleftrightarrow>
     mix_frame s s' \<and>
     (\<forall>jj. queue_inv s jj \<longrightarrow> queue_inv s' jj \<and> pending_input s' jj \<le> pending_input s jj)"



text \<open>Fuel that lets every loop of \<^verbatim>\<open>MixVariableRates\<close> in a \<^verbatim>\<open>Process\<close> end.\<close>

definition Process_fuel :: "'r Mixer \<Rightarrow> nat \<Rightarrow> nat" where
  "Process_fuel s maxToProcess =
     Suc (maxToProcess + sum_list (map (pending_input s) [0..<mNumInputTracks s]))"

subsection \<open>Sample inputs\<close>

text \<open>
  A mono track at 1 Hz over the ten seconds \<open>[0, 10]\<close> whose sample \<open>k\<close> has the value
  \<open>k\<close>, with the unit envelope and times rounded half up to sample indices; the same
  track with every read failing and an envelope of fives, and with an envelope of
  infinities; a resampler that passes its input through; and an engine over one of
  these tracks, forwards from \<open>0.6\<close> to \<open>10\<close>.
\<close>

definition example_track :: SampleTrack where
  "example_track =
     \<lparr>GetRate = 1, GetStartTime = 0, GetEndTime = 10,
      TimeToLongSamples = (\<lambda>t. \<lfloor>t * 1 + 1 / 2\<rfloor>),
      GetFloats = (\<lambda>start len mayThrow.
                     Floats (map (\<lambda>k. Finite (real_of_int (start + int k))) [0..<len])),
      GetEnvelopeValues = (\<lambda>len t0. replicate len (Finite 1)),
      GetChannel = MonoChannel, GetChannelGain = (\<lambda>c. Finite 1), NChannels = 1\<rparr>"



definition example_resampler :: "unit Resample" where
  "example_resampler =
     \<lparr>Resample_new = (\<lambda>highQuality minFactor maxFactor. ()),
      Resample_Process = (\<lambda>r factor inBuffer lastFlag outBufferLen.
         (min (length inBuffer) outBufferLen, take outBufferLen inBuffer, ()))\<rparr>"

definition example_mixer :: "SampleTrack \<Rightarrow> unit Mixer" where
  "example_mixer track =
     Mixer_new example_resampler () 2 4 [track] False (Warp_speeds 0 0 1) (6 / 10) 10
       1 4 False 1 False None False"

section \<open>Properties\<close>

subsection \<open>Rounding\<close>








text \<open>\<open>round_to_even\<close> fixes the integers, is monotone and moves its argument by at most
  one half.\<close>

lemma round_to_even_of_int [simp]: "round_to_even (of_int n) = n"
  by (simp add: round_to_even_def)





lemma ulp_of_pos [simp]: "0 < ulp_of p emin x" "0 \<le> ulp_of p emin x"
  by (simp_all add: ulp_of_def)













text \<open>
  The rounding at some values: the double and the float nearest to one tenth, ties that
  go to the even significand, subnormal floats, and the overflow threshold of binary32
  with the greatest float below it.
\<close>

lemma rounding_examples:
  "double_round (1 / 10) = Finite (3602879701896397 / 2 ^ 55)"
  "float_round (1 / 10) = Finite (13421773 / 2 ^ 27)"
  "float_round 16777217 = Finite 16777216"
  "float_round 16777219 = Finite 16777220"
  "float_round (- 16777219) = Finite (- 16777220)"
  "float_round (3 / 2 ^ 150) = Finite (1 / 2 ^ 148)"
  "float_round (1 / 2 ^ 150) = Finite 0"
  "float_round ((2 - 1 / 2 ^ 24) * 2 ^ 127) = PlusInfinity"
  "float_round ((2 - 1 / 2 ^ 23) * 2 ^ 127) = Finite ((2 - 1 / 2 ^ 23) * 2 ^ 127)"
  by code_simp+

subsection \<open>Divisions of doubles\<close>

text \<open>The same for binary64, and the products and sums with zero in binary32.\<close>

lemma double_round_0 [simp]: "double_round 0 = Finite 0"
  by (simp add: double_round_def ieee_round_def)

lemma float_round_0 [simp]: "float_round 0 = Finite 0"
  by (simp add: float_round_def ieee_round_def)








lemma ieee_le_refl: "v = PlusInfinity \<or> (\<exists>f. v = Finite f \<and> 0 \<le> f) \<Longrightarrow> ieee_le v v"
  by auto




subsection \<open>Downmix\<close>

lemma clear_columns_length: "length (clear_columns lo hi row) = length row"
proof -
  have "length (fold (\<lambda>j r. r[j := False]) js row) = length row" for js
    by (induction js arbitrary: row) simp_all
  then show ?thesis by (simp add: clear_columns_def)
qed

lemma clear_columns_nth:
  "k < length row \<Longrightarrow>
   clear_columns lo hi row ! k = (if lo \<le> k \<and> k < hi then False else row ! k)"
proof -
  have "k < length row \<Longrightarrow>
        fold (\<lambda>j r. r[j := False]) js row ! k = (if k \<in> set js then False else row ! k)" for js
  proof (induction js arbitrary: row)
    case Nil
    show ?case by simp
  next
    case (Cons j js)
    then show ?case by (simp add: nth_list_update)
  qed
  then show "k < length row \<Longrightarrow> ?thesis" by (simp add: clear_columns_def)
qed

lemma fold_rows_length:
  "length (fold (\<lambda>i m. m[i := f (m ! i)]) is m) = length m"
  by (induction "is" arbitrary: m) simp_all

lemma fold_rows_nth:
  "distinct is \<Longrightarrow> k < length m \<Longrightarrow>
   fold (\<lambda>i m. m[i := f (m ! i)]) is m ! k = (if k \<in> set is then f (m ! k) else m ! k)"
proof (induction "is" arbitrary: m)
  case Nil
  show ?case by simp
next
  case (Cons i js)
  from Cons.prems have d: "distinct js" and ni: "i \<notin> set js" by simp_all
  have "k \<in> set js \<Longrightarrow> k \<noteq> i" using ni by blast
  then show ?case
    using Cons.prems(2) by (auto simp: Cons.IH [OF d] nth_list_update)
qed

lemma SetNumChannels_unchanged:
  "Downmix.mNumChannels d = n \<or> mMaxNumChannels d < n \<Longrightarrow> snd (SetNumChannels n d) = d"
  by (auto simp: SetNumChannels_def)

lemma SetNumChannels_map_entry:
  assumes wf: "Downmix_wf d"
    and n: "n \<le> mMaxNumChannels d"
    and i: "i < mNumTracks d"
    and j: "j < mMaxNumChannels d"
  shows "mMap (snd (SetNumChannels n d)) ! i ! j =
           (if (n \<le> j \<and> j < Downmix.mNumChannels d) \<or> (Downmix.mNumChannels d \<le> j \<and> j < n)
            then False else mMap d ! i ! j)"
proof (cases "Downmix.mNumChannels d = n")
  case True
  then show ?thesis by (auto simp: SetNumChannels_def)
next
  case False
  from wf i have len: "i < length (mMap d)" by (simp add: Downmix_wf_def)
  with wf j have row: "j < length (mMap d ! i)"
    by (simp add: Downmix_wf_def list_all_length)
  from False n have
    "mMap (snd (SetNumChannels n d)) ! i =
       clear_columns (Downmix.mNumChannels d) n (clear_columns n (Downmix.mNumChannels d) (mMap d ! i))"
    using i len
      fold_rows_nth [of "[0..<mNumTracks d]" i "mMap d"
        "\<lambda>row. clear_columns (Downmix.mNumChannels d) n (clear_columns n (Downmix.mNumChannels d) row)"]
    by (simp add: SetNumChannels_def)
  with row show ?thesis
    by (auto simp: clear_columns_nth clear_columns_length)
qed

text \<open>
  C7, as the code has it.  With \<open>n \<le> mMaxNumChannels\<close> the call returns true, sets
  \<open>Downmix.mNumChannels = n\<close>, and clears, in every track row, the columns between the old and
  the new channel count in \<^emph>\<open>both\<close> directions: \<open>[n, previous)\<close> when shrinking and
  \<open>[previous, n)\<close> when growing (the second inner loop of the source); every other
  entry, and the two dimensions, are unchanged.  With \<open>n > mMaxNumChannels\<close> the call
  returns false and the object is unchanged.
\<close>

theorem SetNumChannels_spec:
  assumes wf: "Downmix_wf d"
  shows "(n \<le> mMaxNumChannels d \<longrightarrow>
            fst (SetNumChannels n d) \<and>
            Downmix.mNumChannels (snd (SetNumChannels n d)) = n \<and>
            mNumTracks (snd (SetNumChannels n d)) = mNumTracks d \<and>
            mMaxNumChannels (snd (SetNumChannels n d)) = mMaxNumChannels d \<and>
            Downmix_wf (snd (SetNumChannels n d)) \<and>
            (\<forall>i < mNumTracks d. \<forall>j < mMaxNumChannels d.
               mMap (snd (SetNumChannels n d)) ! i ! j =
                 (if (n \<le> j \<and> j < Downmix.mNumChannels d) \<or> (Downmix.mNumChannels d \<le> j \<and> j < n)
                  then False else mMap d ! i ! j))) \<and>
         (n > mMaxNumChannels d \<longrightarrow> SetNumChannels n d = (False, d))"
proof (intro conjI impI allI)
  assume n: "n \<le> mMaxNumChannels d"
  show "fst (SetNumChannels n d)"
    using n by (simp add: SetNumChannels_def)
  show "Downmix.mNumChannels (snd (SetNumChannels n d)) = n"
    using n by (simp add: SetNumChannels_def)
  show "mNumTracks (snd (SetNumChannels n d)) = mNumTracks d"
    by (simp add: SetNumChannels_def)
  show "mMaxNumChannels (snd (SetNumChannels n d)) = mMaxNumChannels d"
    by (simp add: SetNumChannels_def)
  show "Downmix_wf (snd (SetNumChannels n d))"
  proof (cases "Downmix.mNumChannels d = n")
    case True
    with wf show ?thesis by (simp add: SetNumChannels_def)
  next
    case False
    let ?f = "\<lambda>row. clear_columns (Downmix.mNumChannels d) n (clear_columns n (Downmix.mNumChannels d) row)"
    let ?m = "fold (\<lambda>i m. m[i := ?f (m ! i)]) [0..<mNumTracks d] (mMap d)"
    have len: "length ?m = length (mMap d)"
      by (rule fold_rows_length)
    have row: "length (?m ! k) = mMaxNumChannels d" if "k < length (mMap d)" for k
      using that wf fold_rows_nth [of "[0..<mNumTracks d]" k "mMap d" ?f]
      by (simp add: clear_columns_length Downmix_wf_def list_all_length)
    have "\<forall>k < length ?m. length (?m ! k) = mMaxNumChannels d"
    proof (intro allI impI)
      fix k
      assume "k < length ?m"
      then have "k < length (mMap d)" by (simp only: len)
      then show "length (?m ! k) = mMaxNumChannels d" by (rule row)
    qed
    then have "list_all (\<lambda>row. length row = mMaxNumChannels d) ?m"
      by (simp only: list_all_length)
    with wf n False len show ?thesis
      by (simp add: SetNumChannels_def Downmix_wf_def)
  qed
next
  fix i j
  assume "n \<le> mMaxNumChannels d" "i < mNumTracks d" "j < mMaxNumChannels d"
  then show "mMap (snd (SetNumChannels n d)) ! i ! j =
          (if (n \<le> j \<and> j < Downmix.mNumChannels d) \<or> (Downmix.mNumChannels d \<le> j \<and> j < n)
           then False else mMap d ! i ! j)"
    by (rule SetNumChannels_map_entry [OF wf])
next
  assume "mMaxNumChannels d < n"
  with wf show "SetNumChannels n d = (False, d)"
    by (auto simp: SetNumChannels_def Downmix_wf_def)
qed

theorem SetNumChannels_spec_witness:
  "Downmix_wf \<lparr>mNumTracks = 1, Downmix.mNumChannels = 2, mMaxNumChannels = 2, mMap = [[True, True]]\<rparr> \<and>
   fst (SetNumChannels 1
          \<lparr>mNumTracks = 1, Downmix.mNumChannels = 2, mMaxNumChannels = 2, mMap = [[True, True]]\<rparr>) \<and>
   mMap (snd (SetNumChannels 1
          \<lparr>mNumTracks = 1, Downmix.mNumChannels = 2, mMaxNumChannels = 2, mMap = [[True, True]]\<rparr>))
      ! 0 ! 1 = False \<and>
   SetNumChannels 3
          \<lparr>mNumTracks = 1, Downmix.mNumChannels = 2, mMaxNumChannels = 2, mMap = [[True, True]]\<rparr> =
     (False, \<lparr>mNumTracks = 1, Downmix.mNumChannels = 2, mMaxNumChannels = 2, mMap = [[True, True]]\<rparr>)"
proof -
  let ?d = "\<lparr>mNumTracks = 1, Downmix.mNumChannels = 2, mMaxNumChannels = 2, mMap = [[True, True]]\<rparr>"
  have wf: "Downmix_wf ?d" by (simp add: Downmix_wf_def)
  from SetNumChannels_spec [OF wf, of 1] have
    "fst (SetNumChannels 1 ?d)" and
    "\<forall>i<1. \<forall>j<2. mMap (snd (SetNumChannels 1 ?d)) ! i ! j =
        (if (1 \<le> j \<and> j < 2) \<or> (2 \<le> j \<and> j < 1) then False else mMap ?d ! i ! j)"
    by simp_all
  moreover from SetNumChannels_spec [OF wf, of 3]
  have "SetNumChannels 3 ?d = (False, ?d)" by simp
  ultimately show ?thesis using wf by simp
qed

text \<open>
  The claim as worded ("all other map entries are unchanged") fails when the channel count
  grows: a one-track map with one active channel out of two, whose inactive column holds
  true, loses that entry on \<open>SetNumChannels 2\<close>, although column 1 is not in \<open>[2, 1)\<close>.
\<close>

theorem SetNumChannels_grow_counterexample:
  "Downmix_wf \<lparr>mNumTracks = 1, Downmix.mNumChannels = 1, mMaxNumChannels = 2, mMap = [[True, True]]\<rparr> \<and>
   fst (SetNumChannels 2
          \<lparr>mNumTracks = 1, Downmix.mNumChannels = 1, mMaxNumChannels = 2, mMap = [[True, True]]\<rparr>) \<and>
   \<not> (2 \<le> (1::nat) \<and> (1::nat) < 1) \<and>
   mMap (snd (SetNumChannels 2
          \<lparr>mNumTracks = 1, Downmix.mNumChannels = 1, mMaxNumChannels = 2, mMap = [[True, True]]\<rparr>))
      ! 0 ! 1 \<noteq>
   mMap \<lparr>mNumTracks = 1, Downmix.mNumChannels = 1, mMaxNumChannels = 2, mMap = [[True, True]]\<rparr> ! 0 ! 1"
  by code_simp

subsection \<open>Loops that fill a vector\<close>

lemma fold_update_length:
  "length (fold (\<lambda>i xs. xs[i := f i]) is xs) = length xs"
  by (induction "is" arbitrary: xs) simp_all

lemma fold_update_nth:
  "k < length xs \<Longrightarrow>
   fold (\<lambda>i xs. xs[i := f i]) is xs ! k = (if k \<in> set is then f k else xs ! k)"
proof (induction "is" arbitrary: xs rule: rev_induct)
  case Nil
  show ?case by simp
next
  case (snoc i js)
  then show ?case by (cases "i = k") (simp_all add: fold_update_length)
qed

subsection \<open>MakeResamplers and Reposition\<close>

lemma MakeResamplers_fields [simp]:
  "mTime (MakeResamplers R s) = mTime s"
  "mT0 (MakeResamplers R s) = mT0 s"
  "mT1 (MakeResamplers R s) = mT1 s"
  "mSpeed (MakeResamplers R s) = mSpeed s"
  "mSamplePos (MakeResamplers R s) = mSamplePos s"
  "mQueueStart (MakeResamplers R s) = mQueueStart s"
  "mQueueLen (MakeResamplers R s) = mQueueLen s"
  "mInputTrack (MakeResamplers R s) = mInputTrack s"
  "mNumInputTracks (MakeResamplers R s) = mNumInputTracks s"
  "mMixerSpec (MakeResamplers R s) = mMixerSpec s"
  "mHighQuality (MakeResamplers R s) = mHighQuality s"
  "mResampleParameters (MakeResamplers R s) = mResampleParameters s"
  "length (mResample (MakeResamplers R s)) = length (mResample s)"
  by (simp_all add: MakeResamplers_def fold_update_length)

lemma MakeResamplers_nth:
  "i < mNumInputTracks s \<Longrightarrow> i < length (mResample s) \<Longrightarrow>
   mResample (MakeResamplers R s) ! i =
     Resample_new R (mHighQuality s) (mMinFactor (mResampleParameters s) ! i)
       (mMaxFactor (mResampleParameters s) ! i)"
  by (simp add: MakeResamplers_def fold_update_nth)

lemma Reposition_loop_eq:
  "Reposition_loop is s =
     s\<lparr>mSamplePos :=
         fold (\<lambda>i ps. ps[i := TimeToLongSamples (mInputTrack s ! i) (mTime s)]) is (mSamplePos s),
       mQueueStart := fold (\<lambda>i q. q[i := 0]) is (mQueueStart s),
       mQueueLen := fold (\<lambda>i q. q[i := 0]) is (mQueueLen s)\<rparr>"
  unfolding Reposition_loop_def
  by (induction "is" arbitrary: s) simp_all

lemma Reposition_fields:
  "mTime (Reposition R t b s) = std_clamp t (min (mT0 s) (mT1 s)) (max (mT0 s) (mT1 s))"
  "mT0 (Reposition R t b s) = mT0 s"
  "mT1 (Reposition R t b s) = mT1 s"
  "mSpeed (Reposition R t b s) = mSpeed s"
  "mNumInputTracks (Reposition R t b s) = mNumInputTracks s"
  "mInputTrack (Reposition R t b s) = mInputTrack s"
  "mHighQuality (Reposition R t b s) = mHighQuality s"
  "mResampleParameters (Reposition R t b s) = mResampleParameters s"
  by (auto simp: Reposition_def Reposition_loop_eq Let_def min_def max_def)

lemma Reposition_inputs:
  assumes "i < mNumInputTracks s" and "Mixer_wf s"
  shows "mSamplePos (Reposition R t b s) ! i =
           TimeToLongSamples (mInputTrack s ! i)
             (std_clamp t (min (mT0 s) (mT1 s)) (max (mT0 s) (mT1 s)))"
    and "mQueueStart (Reposition R t b s) ! i = 0"
    and "mQueueLen (Reposition R t b s) ! i = 0"
  using assms
  by (auto simp: Reposition_def Reposition_loop_eq Let_def min_def max_def Mixer_wf_def
        fold_update_nth)

lemma Reposition_resamplers:
  assumes "i < mNumInputTracks s" and "Mixer_wf s"
  shows "mResample (Reposition R t True s) ! i =
           Resample_new R (mHighQuality s) (mMinFactor (mResampleParameters s) ! i)
             (mMaxFactor (mResampleParameters s) ! i)"
  using assms
  by (simp add: Reposition_def Reposition_loop_eq Let_def Mixer_wf_def MakeResamplers_nth)

lemma Mixer_new_wf:
  "Mixer_wf (Mixer_new R r0 P Q inputTracks mayThrow warpOptions startTime stopTime
     numOutChannels outBufferSize outInterleaved outRate highQuality mixerSpec applyTrackGains)"
  by (simp add: Mixer_wf_def Mixer_new_def MakeResamplers_def fold_update_length)

lemma example_mixer_wf: "Mixer_wf (example_mixer track)"
  unfolding example_mixer_def by (rule Mixer_new_wf)


subsection \<open>The public operations on times\<close>

lemma example_mixer_fields:
  "mT0 (example_mixer track) = 6 / 10"
  "mT1 (example_mixer track) = 10"
  "mTime (example_mixer track) = 6 / 10"
  "mNumInputTracks (example_mixer track) = 1"
  "mInputTrack (example_mixer track) = [track]"
  by (simp_all add: example_mixer_def Mixer_new_def)

lemma numeric_limits_double_max_pos: "0 < numeric_limits_double_max"
  by (simp add: numeric_limits_double_max_def)

text \<open>
  C2.  After \<open>Reposition(t, false)\<close> the current time is \<open>t\<close> clamped to
  \<open>[min(T0,T1), max(T0,T1)]\<close>; and \<open>Reposition\<close>, skipping or not, sets for every input
  \<open>i\<close> the cursor \<open>pos[i]\<close> to \<open>TimeToLongSamples\<close> of the clamped time and
  \<open>queueStart[i]\<close> and \<open>queueLen[i]\<close> to zero.
\<close>

theorem Reposition_spec:
  assumes wf: "Mixer_wf s"
  shows "MixGetCurrentTime (Reposition R t False s) =
           std_clamp t (min (mT0 s) (mT1 s)) (max (mT0 s) (mT1 s)) \<and>
         (\<forall>i < mNumInputTracks s.
            mSamplePos (Reposition R t bSkipping s) ! i =
              TimeToLongSamples (mInputTrack s ! i)
                (std_clamp t (min (mT0 s) (mT1 s)) (max (mT0 s) (mT1 s))) \<and>
            mQueueStart (Reposition R t bSkipping s) ! i = 0 \<and>
            mQueueLen (Reposition R t bSkipping s) ! i = 0)"
  using wf by (simp add: MixGetCurrentTime_def Reposition_fields Reposition_inputs)

theorem Reposition_spec_witness:
  "Mixer_wf (example_mixer example_track) \<and>
   MixGetCurrentTime (Reposition example_resampler 12 False (example_mixer example_track)) = 10 \<and>
   mSamplePos (Reposition example_resampler 12 False (example_mixer example_track)) ! 0 = 10 \<and>
   mQueueStart (Reposition example_resampler 12 False (example_mixer example_track)) ! 0 = 0 \<and>
   mQueueLen (Reposition example_resampler 12 False (example_mixer example_track)) ! 0 = 0"
  using Reposition_spec [OF example_mixer_wf [of example_track], where R = example_resampler
      and t = 12 and bSkipping = False]
  by (simp add: example_mixer_wf example_mixer_fields std_clamp_def example_track_def)

text \<open>
  C6.  When the sign of \<open>speed\<close> disagrees with the play direction,
  \<open>SetSpeedForKeyboardScrubbing\<close> sets the bounds to \<open>0\<close> and the largest finite double
  so that the direction flips (\<open>T0 = 0 < T1\<close> for a positive speed, \<open>T1 = 0 < T0\<close> for a
  negative one) and then does \<open>Reposition(startTime, true)\<close>: the time is \<open>startTime\<close>
  clamped to the new interval, every cursor and queue is reset and every resampler is a
  new one.  In all cases the current speed becomes \<open>|speed|\<close>.
\<close>

theorem SetSpeedForKeyboardScrubbing_spec:
  fixes R :: "'r Resample" and speed startTime :: real and s :: "'r Mixer"
  assumes wf: "Mixer_wf s"
  defines "s' \<equiv> SetSpeedForKeyboardScrubbing R speed startTime s"
  shows
    "(speed > 0 \<and> mT1 s < mT0 s \<longrightarrow>
        s' = (Reposition R startTime True
                (s\<lparr>mT0 := 0, mT1 := numeric_limits_double_max\<rparr>))\<lparr>mSpeed := \<bar>speed\<bar>\<rparr> \<and>
        mT0 s' = 0 \<and> mT1 s' = numeric_limits_double_max \<and> mT0 s' < mT1 s') \<and>
     (speed < 0 \<and> mT1 s > mT0 s \<longrightarrow>
        s' = (Reposition R startTime True
                (s\<lparr>mT0 := numeric_limits_double_max, mT1 := 0\<rparr>))\<lparr>mSpeed := \<bar>speed\<bar>\<rparr> \<and>
        mT0 s' = numeric_limits_double_max \<and> mT1 s' = 0 \<and> mT1 s' < mT0 s') \<and>
     ((speed > 0 \<and> mT1 s < mT0 s) \<or> (speed < 0 \<and> mT1 s > mT0 s) \<longrightarrow>
        mTime s' = std_clamp startTime 0 numeric_limits_double_max \<and>
        (\<forall>i < mNumInputTracks s.
           mResample s' ! i =
             Resample_new R (mHighQuality s) (mMinFactor (mResampleParameters s) ! i)
               (mMaxFactor (mResampleParameters s) ! i) \<and>
           mSamplePos s' ! i =
             TimeToLongSamples (mInputTrack s ! i) (std_clamp startTime 0 numeric_limits_double_max) \<and>
           mQueueStart s' ! i = 0 \<and> mQueueLen s' ! i = 0)) \<and>
     mSpeed s' = \<bar>speed\<bar>"
proof -
  let ?fw = "s\<lparr>mT0 := 0, mT1 := numeric_limits_double_max\<rparr>"
  let ?bw = "s\<lparr>mT0 := numeric_limits_double_max, mT1 := 0\<rparr>"
  have wfs: "Mixer_wf ?fw" "Mixer_wf ?bw"
    using wf by (simp_all add: Mixer_wf_def)
  have mm: "min 0 numeric_limits_double_max = 0" "max 0 numeric_limits_double_max = numeric_limits_double_max"
    "min numeric_limits_double_max 0 = 0" "max numeric_limits_double_max 0 = numeric_limits_double_max"
    using numeric_limits_double_max_pos by simp_all
  have fw: "speed > 0 \<and> mT1 s < mT0 s \<Longrightarrow>
            s' = (Reposition R startTime True ?fw)\<lparr>mSpeed := \<bar>speed\<bar>\<rparr>"
    by (simp add: s'_def SetSpeedForKeyboardScrubbing_def)
  have bw: "speed < 0 \<and> mT1 s > mT0 s \<Longrightarrow>
            s' = (Reposition R startTime True ?bw)\<lparr>mSpeed := \<bar>speed\<bar>\<rparr>"
    by (simp add: s'_def SetSpeedForKeyboardScrubbing_def)
  have sp: "mSpeed s' = \<bar>speed\<bar>"
    by (simp add: s'_def SetSpeedForKeyboardScrubbing_def)
  have c1: "speed > 0 \<and> mT1 s < mT0 s \<longrightarrow>
        s' = (Reposition R startTime True ?fw)\<lparr>mSpeed := \<bar>speed\<bar>\<rparr> \<and>
        mT0 s' = 0 \<and> mT1 s' = numeric_limits_double_max \<and> mT0 s' < mT1 s'"
    using fw numeric_limits_double_max_pos by (simp add: Reposition_fields)
  have c2: "speed < 0 \<and> mT1 s > mT0 s \<longrightarrow>
        s' = (Reposition R startTime True ?bw)\<lparr>mSpeed := \<bar>speed\<bar>\<rparr> \<and>
        mT0 s' = numeric_limits_double_max \<and> mT1 s' = 0 \<and> mT1 s' < mT0 s'"
    using bw numeric_limits_double_max_pos by (simp add: Reposition_fields)
  have c3: "mTime s' = std_clamp startTime 0 numeric_limits_double_max \<and>
        (\<forall>i < mNumInputTracks s.
           mResample s' ! i =
             Resample_new R (mHighQuality s) (mMinFactor (mResampleParameters s) ! i)
               (mMaxFactor (mResampleParameters s) ! i) \<and>
           mSamplePos s' ! i =
             TimeToLongSamples (mInputTrack s ! i) (std_clamp startTime 0 numeric_limits_double_max) \<and>
           mQueueStart s' ! i = 0 \<and> mQueueLen s' ! i = 0)"
    if "(speed > 0 \<and> mT1 s < mT0 s) \<or> (speed < 0 \<and> mT1 s > mT0 s)"
    using that
  proof
    assume a: "speed > 0 \<and> mT1 s < mT0 s"
    show ?thesis
      using Reposition_inputs [of _ ?fw R startTime True] Reposition_resamplers [of _ ?fw R startTime]
      by (simp add: fw [OF a] wfs Reposition_fields mm)
  next
    assume a: "speed < 0 \<and> mT1 s > mT0 s"
    show ?thesis
      using Reposition_inputs [of _ ?bw R startTime True] Reposition_resamplers [of _ ?bw R startTime]
      by (simp add: bw [OF a] wfs Reposition_fields mm)
  qed
  from c1 c2 c3 sp show ?thesis by blast
qed


theorem SetSpeedForKeyboardScrubbing_spec_witness:
  "Mixer_wf (example_mixer example_track) \<and>
   (- 2 :: real) < 0 \<and>
   mT0 (example_mixer example_track) < mT1 (example_mixer example_track) \<and>
   mT0 (SetSpeedForKeyboardScrubbing example_resampler (- 2) 3 (example_mixer example_track)) =
     numeric_limits_double_max \<and>
   mT1 (SetSpeedForKeyboardScrubbing example_resampler (- 2) 3 (example_mixer example_track)) = 0 \<and>
   mTime (SetSpeedForKeyboardScrubbing example_resampler (- 2) 3 (example_mixer example_track)) = 3 \<and>
   mSamplePos (SetSpeedForKeyboardScrubbing example_resampler (- 2) 3
                 (example_mixer example_track)) ! 0 = 3 \<and>
   mSpeed (SetSpeedForKeyboardScrubbing example_resampler (- 2) 3 (example_mixer example_track)) = 2"
proof -
  let ?m = "example_mixer example_track"
  let ?s' = "SetSpeedForKeyboardScrubbing example_resampler (- 2) 3 ?m"
  note th = SetSpeedForKeyboardScrubbing_spec [OF example_mixer_wf [of example_track],
        where R = example_resampler and speed = "- 2" and startTime = 3]
  have pre: "(- 2 :: real) < 0 \<and> mT0 ?m < mT1 ?m"
    by (simp add: example_mixer_fields)
  have cl: "std_clamp 3 0 numeric_limits_double_max = 3"
    by (simp add: std_clamp_def numeric_limits_double_max_def)
  have tr: "TimeToLongSamples (mInputTrack ?m ! 0) 3 = 3"
    by (simp add: example_mixer_fields example_track_def)
  from th pre have "mT0 ?s' = numeric_limits_double_max" "mT1 ?s' = 0"
    by blast+
  moreover from th have "mSpeed ?s' = \<bar>- 2\<bar>"
    by blast
  moreover from th pre have "mTime ?s' = std_clamp 3 0 numeric_limits_double_max"
    by blast
  moreover from th pre have "\<forall>i < mNumInputTracks ?m. mSamplePos ?s' ! i =
      TimeToLongSamples (mInputTrack ?m ! i) (std_clamp 3 0 numeric_limits_double_max)"
    by blast
  then have "mSamplePos ?s' ! 0 = 3"
    by (simp add: example_mixer_fields(4) cl tr)
  ultimately show ?thesis
    using pre example_mixer_wf [of example_track] cl by simp
qed

text \<open>
  C9.  The constructor keeps the supplied route map exactly when its channel count is the
  number of output channels and its track count is the number of inputs; with any other
  map the constructed engine is the one constructed with no map at all, whose routing
  \<open>findChannelFlags\<close> derives from the channel designation.
\<close>

theorem Mixer_new_routeMap:
  "(Downmix.mNumChannels spec = numOutChannels \<and> mNumTracks spec = length inputTracks \<longrightarrow>
      mMixerSpec (Mixer_new R r0 P Q inputTracks mayThrow warpOptions startTime stopTime
        numOutChannels outBufferSize outInterleaved outRate highQuality (Some spec)
        applyTrackGains) = Some spec) \<and>
   (\<not> (Downmix.mNumChannels spec = numOutChannels \<and> mNumTracks spec = length inputTracks) \<longrightarrow>
      mMixerSpec (Mixer_new R r0 P Q inputTracks mayThrow warpOptions startTime stopTime
        numOutChannels outBufferSize outInterleaved outRate highQuality (Some spec)
        applyTrackGains) = None \<and>
      Mixer_new R r0 P Q inputTracks mayThrow warpOptions startTime stopTime
        numOutChannels outBufferSize outInterleaved outRate highQuality (Some spec)
        applyTrackGains =
      Mixer_new R r0 P Q inputTracks mayThrow warpOptions startTime stopTime
        numOutChannels outBufferSize outInterleaved outRate highQuality None
        applyTrackGains) \<and>
   mMixerSpec (Mixer_new R r0 P Q inputTracks mayThrow warpOptions startTime stopTime
        numOutChannels outBufferSize outInterleaved outRate highQuality None
        applyTrackGains) = None"
  by (simp add: Mixer_new_def)

theorem Mixer_new_routeMap_witness:
  "mMixerSpec (Mixer_new example_resampler () 2 4 [example_track] False (Warp_speeds 0 0 1) 0 10
      1 4 False 1 False (Some (Downmix_new [[False]] 1 1)) False) =
     Some (Downmix_new [[False]] 1 1) \<and>
   mMixerSpec (Mixer_new example_resampler () 2 4 [example_track] False (Warp_speeds 0 0 1) 0 10
      1 4 False 1 False (Some (Downmix_new [[False, False], [False, False]] 2 2)) False) = None"
  using
    Mixer_new_routeMap [where spec = "Downmix_new [[False]] 1 1" and numOutChannels = 1
      and inputTracks = "[example_track]" and R = example_resampler and ?r0.0 = "()" and P = 2
      and Q = 4 and mayThrow = False and warpOptions = "Warp_speeds 0 0 1" and startTime = 0
      and stopTime = 10 and outBufferSize = 4 and outInterleaved = False and outRate = 1
      and highQuality = False and applyTrackGains = False]
    Mixer_new_routeMap [where spec = "Downmix_new [[False, False], [False, False]] 2 2"
      and numOutChannels = 1
      and inputTracks = "[example_track]" and R = example_resampler and ?r0.0 = "()" and P = 2
      and Q = 4 and mayThrow = False and warpOptions = "Warp_speeds 0 0 1" and startTime = 0
      and stopTime = 10 and outBufferSize = 4 and outInterleaved = False and outRate = 1
      and highQuality = False and applyTrackGains = False]
  by (simp add: Downmix_new_def)

subsection \<open>ResampleParameters\<close>







subsection \<open>What the mixing routines leave alone\<close>

lemma mix_frame_refl [simp]: "mix_frame s s"
  by (simp add: mix_frame_def)

lemma mix_frame_trans: "mix_frame s s' \<Longrightarrow> mix_frame s' s'' \<Longrightarrow> mix_frame s s''"
  by (simp add: mix_frame_def)

lemma MixSameRate_Raised: "MixSameRate ii maxOut fb s = Raised s' \<Longrightarrow> s' = s"
  by (auto simp: MixSameRate_def Let_def split: if_splits floats_result.splits)

lemma MixSameRate_finished: "MixSameRate ii maxOut fb s \<noteq> Unfinished"
  by (auto simp: MixSameRate_def Let_def split: if_splits floats_result.splits)

lemma MixSameRate_frame: "MixSameRate ii maxOut fb s = Done (n, s') \<Longrightarrow> mix_frame s s'"
  by (auto simp: MixSameRate_def Let_def mix_frame_def split: if_splits floats_result.splits)

lemma refill_queue_frame:
  "refill_queue ii s = Done s' \<or> refill_queue ii s = Raised s' \<Longrightarrow> mix_frame s s'"
  by (auto simp: refill_queue_def Let_def mix_frame_def split: if_splits floats_result.splits)

lemma refill_queue_finished: "refill_queue ii s \<noteq> Unfinished"
  by (auto simp: refill_queue_def Let_def split: if_splits floats_result.splits)

lemma resample_slice_frame:
  "resample_slice R ii maxOut fb out t s = (l, out', t', s') \<Longrightarrow> mix_frame s s'"
  by (auto simp: resample_slice_def Let_def mix_frame_def)

text \<open>
  An invariant of the loop of \<^verbatim>\<open>MixVariableRates\<close>: what holds at the loop head and is
  kept by the refill and by the resampling of a slice holds when the loop is left, by its
  condition, by \<^verbatim>\<open>break\<close> or by an exception of the refill.
\<close>

lemma MixVariableRates_loop_invariant:
  assumes init: "P out s"
    and refill: "\<And>out s s1. P out s \<Longrightarrow> out < maxOut \<Longrightarrow>
        mQueueLen s ! ii < int (sProcessLen s) \<Longrightarrow>
        refill_queue ii s = Done s1 \<or> refill_queue ii s = Raised s1 \<Longrightarrow> P out s1"
    and slice: "\<And>out t s isLast out' t' s2. P out s \<Longrightarrow> out < maxOut \<Longrightarrow>
        resample_slice R ii maxOut fb out t s = (isLast, out', t', s2) \<Longrightarrow> P out' s2"
  shows "MixVariableRates_loop fuel R ii maxOut fb out t s = Done (n, s') \<Longrightarrow> P n s'"
    and "MixVariableRates_loop fuel R ii maxOut fb out t s = Raised s' \<Longrightarrow> \<exists>k. P k s'"
proof -
  have "(MixVariableRates_loop fuel R ii maxOut fb out t s = Done (n, s') \<longrightarrow> P n s') \<and>
        (MixVariableRates_loop fuel R ii maxOut fb out t s = Raised s' \<longrightarrow> (\<exists>k. P k s'))"
    using init
  proof (induction fuel arbitrary: out t s)
    case 0
    then show ?case by auto
  next
    case (Suc fuel)
    show ?case
    proof (cases "out < maxOut")
      case False
      with Suc.prems show ?thesis by auto
    next
      case True
      define r where
        "r = (if mQueueLen s ! ii < int (sProcessLen s) then refill_queue ii s else Done s)"
      show ?thesis
      proof (cases r)
        case (Done s1)
        have p1: "P out s1"
        proof (cases "mQueueLen s ! ii < int (sProcessLen s)")
          case True
          with Done have "refill_queue ii s = Done s1" by (simp add: r_def)
          with Suc.prems \<open>out < maxOut\<close> True show ?thesis by (blast intro: refill)
        next
          case False
          with Done Suc.prems show ?thesis by (simp add: r_def)
        qed
        obtain isLast out' t' s2 where
          sl: "resample_slice R ii maxOut fb out t s1 = (isLast, out', t', s2)"
          by (metis prod_cases4)
        from p1 \<open>out < maxOut\<close> sl have p2: "P out' s2" by (rule slice)
        show ?thesis
        proof (cases isLast)
          case True
          with \<open>out < maxOut\<close> Done sl have
            "MixVariableRates_loop (Suc fuel) R ii maxOut fb out t s = Done (out', s2)"
            by (simp add: r_def [symmetric])
          with p2 show ?thesis by (auto simp del: MixVariableRates_loop.simps)
        next
          case False
          with \<open>out < maxOut\<close> Done sl have
            "MixVariableRates_loop (Suc fuel) R ii maxOut fb out t s =
             MixVariableRates_loop fuel R ii maxOut fb out' t' s2"
            by (simp add: r_def [symmetric])
          with Suc.IH [OF p2] show ?thesis by (simp del: MixVariableRates_loop.simps)
        qed
      next
        case (Raised s1)
        then have "refill_queue ii s = Raised s1" and "mQueueLen s ! ii < int (sProcessLen s)"
          by (auto simp: r_def split: if_splits)
        with Suc.prems \<open>out < maxOut\<close> have "P out s1" by (blast intro: refill)
        moreover from \<open>out < maxOut\<close> Raised have
          "MixVariableRates_loop (Suc fuel) R ii maxOut fb out t s = Raised s1"
          by (simp add: r_def [symmetric])
        ultimately show ?thesis by (auto simp del: MixVariableRates_loop.simps)
      next
        case Unfinished
        with \<open>out < maxOut\<close> show ?thesis
          by (simp add: r_def [symmetric])
      qed
    qed
  qed
  then show "MixVariableRates_loop fuel R ii maxOut fb out t s = Done (n, s') \<Longrightarrow> P n s'"
    and "MixVariableRates_loop fuel R ii maxOut fb out t s = Raised s' \<Longrightarrow> \<exists>k. P k s'"
    by blast+
qed

lemma MixVariableRates_loop_frame:
  assumes "MixVariableRates_loop fuel R ii maxOut fb out t s = Done (n, s') \<or>
           MixVariableRates_loop fuel R ii maxOut fb out t s = Raised s'"
  shows "mix_frame s s'"
proof -
  have d: "mix_frame s s'" if "MixVariableRates_loop fuel R ii maxOut fb out t s = Done (n, s')"
    by (rule MixVariableRates_loop_invariant(1)
          [where P = "\<lambda>k u. mix_frame s u" and out = out and s = s, OF _ _ _ that])
       (blast intro: mix_frame_refl mix_frame_trans refill_queue_frame resample_slice_frame)+
  have "\<exists>k::nat. mix_frame s s'"
    if "MixVariableRates_loop fuel R ii maxOut fb out t s = Raised s'"
    by (rule MixVariableRates_loop_invariant(2)
          [where P = "\<lambda>k u. mix_frame s u" and out = out and s = s, OF _ _ _ that])
       (blast intro: mix_frame_refl mix_frame_trans refill_queue_frame resample_slice_frame)+
  with d assms show ?thesis by blast
qed

lemma MixVariableRates_frame:
  "MixVariableRates fuel R ii maxOut fb s = Done (n, s') \<or>
   MixVariableRates fuel R ii maxOut fb s = Raised s' \<Longrightarrow> mix_frame s s'"
  unfolding MixVariableRates_def Let_def by (rule MixVariableRates_loop_frame)

subsection \<open>Invariants of the loops of Process\<close>

lemma mix_input_frame:
  "mix_input fuel R ii maxToProcess j s = Done (n, s') \<or>
   mix_input fuel R ii maxToProcess j s = Raised s' \<Longrightarrow> mix_frame s s'"
  using MixSameRate_frame [of ii maxToProcess j s n s'] MixSameRate_Raised [of ii maxToProcess j s s']
    MixVariableRates_frame [of fuel R ii maxToProcess j s n s']
  by (auto simp: mix_input_def split: if_splits)

lemma accumulate_group_state:
  "\<exists>temp. snd (accumulate_group i js mixed gains s) = s\<lparr>mTemp := temp\<rparr>"
proof (induction js arbitrary: gains s)
  case Nil
  have "snd (accumulate_group i [] mixed gains s) = s\<lparr>mTemp := mTemp s\<rparr>" by simp
  then show ?case by (rule exI)
next
  case (Cons j js)
  define gains' where "gains' =
    (if mApplyTrackGains s
     then map (GetChannelGain (mInputTrack s ! (i + j))) [0..<mNumChannels s] else gains)"
  define temp1 where "temp1 =
    MixBuffers (mNumChannels s)
      (findChannelFlags (mNumChannels s)
         (case mMixerSpec s of Some spec \<Rightarrow> Some (mMap spec ! (i + j)) | None \<Rightarrow> None)
         (GetChannel (mInputTrack s ! (i + j))))
      gains' (mFloatBuffers s ! j) (mTemp s) (mixed j)"
  have unfold: "accumulate_group i (j # js) mixed gains s =
          accumulate_group i js mixed gains' (s\<lparr>mTemp := temp1\<rparr>)"
    by (simp add: Let_def gains'_def temp1_def)
  obtain temp where
    "snd (accumulate_group i js mixed gains' (s\<lparr>mTemp := temp1\<rparr>)) =
       (s\<lparr>mTemp := temp1\<rparr>)\<lparr>mTemp := temp\<rparr>"
    using Cons.IH by blast
  then have "snd (accumulate_group i (j # js) mixed gains s) = s\<lparr>mTemp := temp\<rparr>"
    by (simp del: accumulate_group.simps add: unfold)
  then show ?case by (rule exI)
qed

text \<open>
  What holds of \<open>maxOut\<close>, \<open>newTime\<close> and the object before the first inner loop, and is
  kept by each call of a mixing routine, holds after the loop; \<open>Q\<close> is what then holds of
  the object an exception leaves behind.
\<close>

lemma mix_group_invariant:
  assumes init: "P maxOut newTime s"
    and step: "\<And>j maxOut newTime s result s'. j \<in> set js \<Longrightarrow> P maxOut newTime s \<Longrightarrow>
        mix_input fuel R (i + j) maxToProcess j s = Done (result, s') \<Longrightarrow>
        P (max maxOut result)
          (if backwards
           then min newTime (real_of_int (mSamplePos s' ! (i + j)) / GetRate (mInputTrack s ! (i + j)))
           else max newTime (real_of_int (mSamplePos s' ! (i + j)) / GetRate (mInputTrack s ! (i + j))))
          s'"
    and raised: "\<And>j maxOut newTime s s'. j \<in> set js \<Longrightarrow> P maxOut newTime s \<Longrightarrow>
        mix_input fuel R (i + j) maxToProcess j s = Raised s' \<Longrightarrow> Q s'"
  shows "(mix_group fuel R maxToProcess backwards i js (maxOut, newTime, mixed) s =
            Done ((maxOut', newTime', mixed'), s') \<longrightarrow> P maxOut' newTime' s') \<and>
         (mix_group fuel R maxToProcess backwards i js (maxOut, newTime, mixed) s = Raised s' \<longrightarrow>
            Q s')"
  using init step raised
proof (induction js arbitrary: maxOut newTime mixed s)
  case Nil
  then show ?case by auto
next
  case (Cons j js)
  show ?case
  proof (cases "mix_input fuel R (i + j) maxToProcess j s")
    case (Done r)
    obtain result s1 where r: "r = (result, s1)" by (cases r)
    let ?newT = "real_of_int (mSamplePos s1 ! (i + j)) / GetRate (mInputTrack s ! (i + j))"
    let ?nt = "if backwards then min newTime ?newT else max newTime ?newT"
    have p: "P (max maxOut result) ?nt s1"
      using Cons.prems(1) Done r by (intro Cons.prems(2)) simp_all
    have "(mix_group fuel R maxToProcess backwards i js
             (max maxOut result, ?nt, mixed(j := result)) s1 =
            Done ((maxOut', newTime', mixed'), s') \<longrightarrow> P maxOut' newTime' s') \<and>
          (mix_group fuel R maxToProcess backwards i js
             (max maxOut result, ?nt, mixed(j := result)) s1 = Raised s' \<longrightarrow> Q s')"
    proof (rule Cons.IH [OF p])
      fix ja mo nt u result u'
      assume "ja \<in> set js" "P mo nt u"
        "mix_input fuel R (i + ja) maxToProcess ja u = Done (result, u')"
      then show "P (max mo result)
          (if backwards
           then min nt (real_of_int (mSamplePos u' ! (i + ja)) / GetRate (mInputTrack u ! (i + ja)))
           else max nt (real_of_int (mSamplePos u' ! (i + ja)) / GetRate (mInputTrack u ! (i + ja))))
          u'"
        by (intro Cons.prems(2)) simp_all
    next
      fix ja mo nt u u'
      assume "ja \<in> set js" "P mo nt u" "mix_input fuel R (i + ja) maxToProcess ja u = Raised u'"
      then show "Q u'"
        by (intro Cons.prems(3) [of ja mo nt u u']) simp_all
    qed
    with Done r show ?thesis by (simp add: Let_def)
  next
    case (Raised s1)
    have "Q s1"
      using Cons.prems(1) Raised by (intro Cons.prems(3) [of j maxOut newTime s s1]) simp_all
    with Raised show ?thesis by (auto simp: Let_def)
  next
    case Unfinished
    then show ?thesis by (simp add: Let_def)
  qed
qed

text \<open>
  The same for the loop over the leaders: an invariant of \<open>maxOut\<close>, \<open>newTime\<close> and the
  object that each mixing routine keeps for the inputs below \<open>n\<close>, and that does not
  depend on the accumulators \<open>mTemp\<close>, holds when \<^verbatim>\<open>Process\<close> leaves the loop.
\<close>

lemma process_tracks_invariant:
  assumes init: "P maxOut newTime s"
    and step: "\<And>ii fb maxOut newTime s result s'. ii < n \<Longrightarrow> P maxOut newTime s \<Longrightarrow>
        mix_input fuel R ii maxToProcess fb s = Done (result, s') \<Longrightarrow>
        P (max maxOut result)
          (if backwards
           then min newTime (real_of_int (mSamplePos s' ! ii) / GetRate (mInputTrack s ! ii))
           else max newTime (real_of_int (mSamplePos s' ! ii) / GetRate (mInputTrack s ! ii)))
          s'"
    and raised: "\<And>ii fb maxOut newTime s s'. ii < n \<Longrightarrow> P maxOut newTime s \<Longrightarrow>
        mix_input fuel R ii maxToProcess fb s = Raised s' \<Longrightarrow> Q s'"
    and temp: "\<And>maxOut newTime s temp. P maxOut newTime s \<Longrightarrow>
        P maxOut newTime (s\<lparr>mTemp := temp\<rparr>)"
  shows "(process_tracks fuel R maxToProcess backwards n i (maxOut, newTime, mixed, gains) s =
            Done ((maxOut', newTime', mixed', gains'), s') \<longrightarrow> P maxOut' newTime' s') \<and>
         (process_tracks fuel R maxToProcess backwards n i (maxOut, newTime, mixed, gains) s =
            Raised s' \<longrightarrow> Q s')"
  using init
proof (induction "n - i" arbitrary: i maxOut newTime mixed gains s rule: less_induct)
  case less
  let ?run = "process_tracks fuel R maxToProcess backwards n i (maxOut, newTime, mixed, gains) s"
  define nIn where "nIn = NChannels (mInputTrack s ! i)"
  show ?case
  proof (cases "i < n \<and> i + nIn \<le> n \<and> nIn \<noteq> 0")
    case False
    have "?run = Done ((maxOut, newTime, mixed, gains), s) \<or> ?run = Unfinished"
    proof (cases "i < n")
      case False
      then show ?thesis by (simp add: process_tracks.simps)
    next
      case True
      with \<open>\<not> (i < n \<and> i + nIn \<le> n \<and> nIn \<noteq> 0)\<close> consider "n < i + nIn" | "i + nIn \<le> n" "nIn = 0"
        by linarith
      then show ?thesis
      proof cases
        case 1
        with True show ?thesis by (simp add: process_tracks.simps Let_def nIn_def)
      next
        case 2
        with True show ?thesis by (simp add: process_tracks.simps Let_def nIn_def)
      qed
    qed
    with less.prems show ?thesis by auto
  next
    case True
    let ?js = "[0..<min nIn 2]"
    let ?grp = "mix_group fuel R maxToProcess backwards i ?js (maxOut, newTime, mixed) s"
    have run: "?run =
        (case ?grp of
           Raised u \<Rightarrow> Raised u
         | Unfinished \<Rightarrow> Unfinished
         | Done ((maxOut1, newTime1, mixed1), s1) \<Rightarrow>
             (case accumulate_group i ?js mixed1 gains s1 of
                (gains2, s2) \<Rightarrow>
                  process_tracks fuel R maxToProcess backwards n (i + nIn)
                    (maxOut1, newTime1, mixed1, gains2) s2))"
      using True unfolding nIn_def by (subst process_tracks.simps) (simp add: Let_def)
    have grp: "(?grp = Done ((maxOut1, newTime1, mixed1), s1) \<longrightarrow> P maxOut1 newTime1 s1) \<and>
               (?grp = Raised s1 \<longrightarrow> Q s1)" for maxOut1 newTime1 mixed1 s1
    proof (rule mix_group_invariant [where P = P and Q = Q, OF less.prems])
      fix j mo nt u result u'
      assume "j \<in> set ?js" "P mo nt u"
        "mix_input fuel R (i + j) maxToProcess j u = Done (result, u')"
      moreover from \<open>j \<in> set ?js\<close> True have "i + j < n" by auto
      ultimately show "P (max mo result)
          (if backwards
           then min nt (real_of_int (mSamplePos u' ! (i + j)) / GetRate (mInputTrack u ! (i + j)))
           else max nt (real_of_int (mSamplePos u' ! (i + j)) / GetRate (mInputTrack u ! (i + j))))
          u'"
        by (intro step) simp_all
    next
      fix j mo nt u u'
      assume "j \<in> set ?js" "P mo nt u" "mix_input fuel R (i + j) maxToProcess j u = Raised u'"
      moreover from \<open>j \<in> set ?js\<close> True have "i + j < n" by auto
      ultimately show "Q u'"
        by (intro raised [of "i + j" mo nt u j u']) simp_all
    qed
    show ?thesis
    proof (cases ?grp)
      case (Done r)
      obtain maxOut1 newTime1 mixed1 s1 where r: "r = ((maxOut1, newTime1, mixed1), s1)"
        by (metis prod.collapse)
      obtain gains2 s2 where acc: "accumulate_group i ?js mixed1 gains s1 = (gains2, s2)"
        by (cases "accumulate_group i ?js mixed1 gains s1")
      obtain tmp where "s2 = s1\<lparr>mTemp := tmp\<rparr>"
        using accumulate_group_state [of i ?js mixed1 gains s1] acc by auto
      moreover from grp Done r have "P maxOut1 newTime1 s1" by blast
      ultimately have p2: "P maxOut1 newTime1 s2" by (simp add: temp)
      from True have "n - (i + nIn) < n - i" by linarith
      from less.hyps [OF this p2, of mixed1 gains2] run Done r acc
      show ?thesis by simp
    next
      case (Raised u)
      with grp [of _ _ _ u] run show ?thesis by auto
    next
      case Unfinished
      with run show ?thesis by simp
    qed
  qed
qed

subsection \<open>Process and the current time\<close>

lemma process_tracks_frame:
  assumes "process_tracks fuel R maxToProcess backwards n i (maxOut, newTime, mixed, gains) s =
             Done ((maxOut', newTime', mixed', gains'), s') \<or>
           process_tracks fuel R maxToProcess backwards n i (maxOut, newTime, mixed, gains) s =
             Raised s'"
  shows "mix_frame s s'"
proof -
  have "(process_tracks fuel R maxToProcess backwards n i (maxOut, newTime, mixed, gains) s =
            Done ((maxOut', newTime', mixed', gains'), s') \<longrightarrow> mix_frame s s') \<and>
        (process_tracks fuel R maxToProcess backwards n i (maxOut, newTime, mixed, gains) s =
            Raised s' \<longrightarrow> mix_frame s s')"
  proof (rule process_tracks_invariant
      [where P = "\<lambda>maxOut newTime u. mix_frame s u" and Q = "\<lambda>u. mix_frame s u"])
    show "mix_frame s s" by simp
  next
    fix ii fb mo nt u result u'
    assume "mix_frame s u" "mix_input fuel R ii maxToProcess fb u = Done (result, u')"
    then show "mix_frame s u'"
      by (blast intro: mix_frame_trans mix_input_frame)
  next
    fix ii fb mo nt u u'
    assume "mix_frame s u" "mix_input fuel R ii maxToProcess fb u = Raised u'"
    then show "mix_frame s u'"
      by (blast intro: mix_frame_trans mix_input_frame)
  next
    fix mo nt u tmp
    assume "mix_frame s u"
    then show "mix_frame s (u\<lparr>mTemp := tmp\<rparr>)"
      by (simp add: mix_frame_def)
  qed
  with assms show ?thesis by blast
qed

lemma Clear_frame [simp]: "mix_frame s (Clear s)"
  by (simp add: Clear_def mix_frame_def)

text \<open>How \<^verbatim>\<open>Process\<close> ends, in terms of its loop.\<close>

lemma Process_Done:
  assumes "Process fuel R maxToProcess s = Done (k, s')"
  obtains newTime' mixed' gains' s2 where
    "process_tracks fuel R maxToProcess (mT0 s > mT1 s) (mNumInputTracks s) 0
       (0, mTime s, (\<lambda>j. 0), replicate (mNumChannels s) (Finite 1)) (Clear s) =
     Done ((k, newTime', mixed', gains'), s2)"
    "s' = s2\<lparr>mTime := (if mT0 s > mT1 s then std_clamp newTime' (mT1 s) (mTime s)
                          else std_clamp newTime' (mTime s) (mT1 s))\<rparr>"
    "mix_frame s s2"
proof -
  let ?run = "process_tracks fuel R maxToProcess (mT0 s > mT1 s) (mNumInputTracks s) 0
       (0, mTime s, (\<lambda>j. 0), replicate (mNumChannels s) (Finite 1)) (Clear s)"
  have run: "Process fuel R maxToProcess s =
     (case ?run of
        Raised u \<Rightarrow> Raised u
      | Unfinished \<Rightarrow> Unfinished
      | Done ((maxOut, newTime', mixed, gains'), s2) \<Rightarrow>
          Done (maxOut,
            s2\<lparr>mTime := (if mT0 s > mT1 s then std_clamp newTime' (mT1 s2) (mTime s2)
                          else std_clamp newTime' (mTime s2) (mT1 s2))\<rparr>))"
    by (simp add: Process_def Let_def Clear_def)
  from assms run obtain r where r: "?run = Done r"
    by (cases ?run) simp_all
  obtain maxOut newTime' mixed' gains' s2 where r': "r = ((maxOut, newTime', mixed', gains'), s2)"
    by (metis prod.collapse)
  from r r' have "mix_frame (Clear s) s2"
    by (blast intro: process_tracks_frame)
  then have fr: "mix_frame s s2"
    by (blast intro: mix_frame_trans Clear_frame)
  then have eq: "mT0 s2 = mT0 s" "mT1 s2 = mT1 s" "mTime s2 = mTime s"
    by (simp_all add: mix_frame_def)
  from assms run r r' have "k = maxOut" and
    "s' = s2\<lparr>mTime := (if mT0 s > mT1 s then std_clamp newTime' (mT1 s2) (mTime s2)
                          else std_clamp newTime' (mTime s2) (mT1 s2))\<rparr>"
    by simp_all
  with r r' fr eq show thesis
    by (intro that [of newTime' mixed' gains' s2]) simp_all
qed

lemma Process_Raised:
  assumes "Process fuel R maxToProcess s = Raised s'"
  shows "mix_frame s s'"
proof -
  let ?run = "process_tracks fuel R maxToProcess (mT0 s > mT1 s) (mNumInputTracks s) 0
       (0, mTime s, (\<lambda>j. 0), replicate (mNumChannels s) (Finite 1)) (Clear s)"
  from assms have "?run = Raised s'"
    by (cases ?run) (auto simp: Process_def Let_def Clear_def)
  then have "mix_frame (Clear s) s'"
    by (blast intro: process_tracks_frame)
  then show ?thesis
    by (blast intro: mix_frame_trans Clear_frame)
qed

lemma std_clamp_bounds: "lo \<le> hi \<Longrightarrow> lo \<le> std_clamp v lo hi \<and> std_clamp v lo hi \<le> hi"
  by (simp add: std_clamp_def)

lemma Process_time:
  assumes inv: "time_inv s" and run: "Process fuel R maxToProcess s = Done (k, s')"
  shows "time_inv s' \<and> mT0 s' = mT0 s \<and> mT1 s' = mT1 s \<and>
         (if mT0 s \<le> mT1 s then mTime s \<le> mTime s' \<and> mTime s' \<le> mT1 s
          else mT1 s \<le> mTime s' \<and> mTime s' \<le> mTime s)"
proof -
  from run obtain newTime' mixed' gains' s2 where
    s': "s' = s2\<lparr>mTime := (if mT0 s > mT1 s then std_clamp newTime' (mT1 s) (mTime s)
                          else std_clamp newTime' (mTime s) (mT1 s))\<rparr>"
    and fr: "mix_frame s s2"
    by (rule Process_Done)
  from fr have eq: "mT0 s2 = mT0 s" "mT1 s2 = mT1 s"
    by (simp_all add: mix_frame_def)
  show ?thesis
  proof (cases "mT0 s \<le> mT1 s")
    case True
    with inv have "mTime s \<le> mT1 s" by (simp add: time_inv_def)
    from std_clamp_bounds [OF this, of newTime'] True inv show ?thesis
      by (simp add: eq time_inv_def s')
  next
    case False
    with inv have "mT1 s \<le> mTime s" by (simp add: time_inv_def)
    from std_clamp_bounds [OF this, of newTime'] False inv show ?thesis
      by (simp add: eq time_inv_def s')
  qed
qed

lemma Reposition_time_inv: "time_inv (Reposition R t b s)"
  using std_clamp_bounds [of "min (mT0 s) (mT1 s)" "max (mT0 s) (mT1 s)" t]
  by (simp add: time_inv_def Reposition_fields)

text \<open>
  C10.  The current time lies in \<open>[min(T0,T1), max(T0,T1)]\<close> after the constructor, after
  \<open>Reposition\<close> and \<open>SetTimesAndSpeed\<close> from any object, and after
  \<open>SetSpeedForKeyboardScrubbing\<close> and \<open>Process\<close> from an object where it did; and a
  \<open>Process\<close> that returns leaves the bounds alone and moves the time toward \<open>T1\<close> only:
  between its previous value and \<open>T1\<close>.  A \<open>Process\<close> that a read exception ends does not
  move the time.
\<close>

theorem current_time_invariant:
  "time_inv (Mixer_new R r0 P Q inputTracks mayThrow warpOptions startTime stopTime
      numOutChannels outBufferSize outInterleaved outRate highQuality mixerSpec applyTrackGains) \<and>
   time_inv (Reposition R t bSkipping s0) \<and>
   time_inv (SetTimesAndSpeed R t0 t1 speed bSkipping s0) \<and>
   (time_inv s \<longrightarrow> time_inv (SetSpeedForKeyboardScrubbing R speed startTime' s)) \<and>
   (time_inv s \<and> Process fuel R maxToProcess s = Done (k, s') \<longrightarrow>
      time_inv s' \<and> mT0 s' = mT0 s \<and> mT1 s' = mT1 s \<and>
      (if mT0 s \<le> mT1 s then mTime s \<le> mTime s' \<and> mTime s' \<le> mT1 s
       else mT1 s \<le> mTime s' \<and> mTime s' \<le> mTime s)) \<and>
   (time_inv s \<and> Process fuel R maxToProcess s = Raised s' \<longrightarrow>
      time_inv s' \<and> mT0 s' = mT0 s \<and> mT1 s' = mT1 s \<and> mTime s' = mTime s)"
proof (intro conjI impI)
  show "time_inv (Mixer_new R r0 P Q inputTracks mayThrow warpOptions startTime stopTime
      numOutChannels outBufferSize outInterleaved outRate highQuality mixerSpec applyTrackGains)"
    by (simp add: time_inv_def Mixer_new_def)
  show "time_inv (Reposition R t bSkipping s0)"
    by (rule Reposition_time_inv)
  show "time_inv (SetTimesAndSpeed R t0 t1 speed bSkipping s0)"
    unfolding SetTimesAndSpeed_def by (rule Reposition_time_inv)
  show "time_inv (SetSpeedForKeyboardScrubbing R speed startTime' s)" if "time_inv s"
  proof -
    have "time_inv (u\<lparr>mSpeed := x\<rparr>) = time_inv u" for u :: "'a Mixer" and x
      by (simp add: time_inv_def)
    with that show ?thesis
      by (simp add: SetSpeedForKeyboardScrubbing_def Let_def Reposition_time_inv)
  qed
next
  assume a: "time_inv s \<and> Process fuel R maxToProcess s = Done (k, s')"
  then have *: "time_inv s' \<and> mT0 s' = mT0 s \<and> mT1 s' = mT1 s \<and>
         (if mT0 s \<le> mT1 s then mTime s \<le> mTime s' \<and> mTime s' \<le> mT1 s
          else mT1 s \<le> mTime s' \<and> mTime s' \<le> mTime s)"
    using Process_time [of s fuel R maxToProcess k s'] by simp
  from * show "time_inv s'" by simp
  from * show "mT0 s' = mT0 s" by simp
  from * show "mT1 s' = mT1 s" by simp
  from * show "if mT0 s \<le> mT1 s then mTime s \<le> mTime s' \<and> mTime s' \<le> mT1 s
     else mT1 s \<le> mTime s' \<and> mTime s' \<le> mTime s" by simp
next
  assume a: "time_inv s \<and> Process fuel R maxToProcess s = Raised s'"
  then have fr: "mix_frame s s'" by (blast intro: Process_Raised)
  then show "mT0 s' = mT0 s" "mT1 s' = mT1 s" "mTime s' = mTime s"
    by (simp_all add: mix_frame_def)
  with a show "time_inv s'" by (simp add: time_inv_def)
qed

lemma returned_Some: "returned r = Some n \<Longrightarrow> \<exists>s'. r = Done (n, s')"
  by (cases r) auto

theorem current_time_invariant_witness:
  "time_inv (example_mixer example_track) \<and>
   (\<exists>s'. Process 10 example_resampler 3 (example_mixer example_track) = Done (3, s') \<and>
         time_inv s' \<and>
         mTime (example_mixer example_track) \<le> mTime s' \<and>
         mTime s' \<le> mT1 (example_mixer example_track))"
proof -
  let ?m = "example_mixer example_track"
  have ti: "time_inv ?m"
    by (simp add: time_inv_def example_mixer_fields)
  have "returned (Process 10 example_resampler 3 ?m) = Some 3"
    by code_simp
  then obtain s' where run: "Process 10 example_resampler 3 ?m = Done (3, s')"
    by (blast dest: returned_Some)
  note th = current_time_invariant [where s = ?m and fuel = 10 and R = example_resampler
      and maxToProcess = 3 and k = 3 and s' = s', THEN conjunct2, THEN conjunct2,
      THEN conjunct2, THEN conjunct2, THEN conjunct1]
  have "time_inv s' \<and> mT0 s' = mT0 ?m \<and> mT1 s' = mT1 ?m \<and>
      (if mT0 ?m \<le> mT1 ?m then mTime ?m \<le> mTime s' \<and> mTime s' \<le> mT1 ?m
       else mT1 ?m \<le> mTime s' \<and> mTime s' \<le> mTime ?m)"
    by (rule th [THEN mp]) (simp add: ti run)
  moreover have "mT0 ?m \<le> mT1 ?m"
    by (simp add: example_mixer_fields)
  ultimately have "time_inv s' \<and> mTime ?m \<le> mTime s' \<and> mTime s' \<le> mT1 ?m"
    by simp
  with ti run show ?thesis by blast
qed

subsection \<open>Calls that do not advance\<close>

lemma copy_into_Nil [simp]: "copy_into buf off [] = buf"
  by (simp add: copy_into_def)

lemma apply_envelope_0 [simp]: "apply_envelope buf off 0 env = buf"
  by (simp add: apply_envelope_def)

lemma ReverseSamples_0 [simp]: "ReverseSamples buf start 0 = buf"
  by (simp add: ReverseSamples_def)

lemma store_floats_0 [simp]: "store_floats buf off 0 results = buf"
  by (simp add: store_floats_def split: floats_result.split)

lemma limitSampleBufferSize_le: "limitSampleBufferSize bufferSize limit \<le> bufferSize"
  by (simp add: limitSampleBufferSize_def)

lemma limitSampleBufferSize_0 [simp]: "limitSampleBufferSize 0 limit = 0"
  by (simp add: limitSampleBufferSize_def)


lemma MixSameRate_zero:
  assumes "\<forall>start. GetFloats (mInputTrack s ! ii) start 0 (mMayThrow s) \<noteq> ReadThrows"
  shows "MixSameRate ii 0 fb s = Done (0, s)"
  using assms
  by (simp add: MixSameRate_def Let_def split: floats_result.split)

lemma MixVariableRates_zero: "MixVariableRates fuel R ii 0 fb s = Done (0, s)"
  by (cases fuel) (simp_all add: MixVariableRates_def)

lemma mix_input_zero:
  assumes "\<forall>start. GetFloats (mInputTrack s ! ii) start 0 (mMayThrow s) \<noteq> ReadThrows"
  shows "mix_input fuel R ii 0 fb s = Done (0, s)"
  using assms by (simp add: mix_input_def MixSameRate_zero MixVariableRates_zero)


subsection \<open>Loops of Process that end\<close>

lemma mix_group_finishes:
  assumes init: "P s"
    and step: "\<And>j s result s'. j \<in> set js \<Longrightarrow> P s \<Longrightarrow>
        mix_input fuel R (i + j) maxToProcess j s = Done (result, s') \<Longrightarrow> P s'"
    and fin: "\<And>j s. j \<in> set js \<Longrightarrow> P s \<Longrightarrow>
        mix_input fuel R (i + j) maxToProcess j s \<noteq> Unfinished"
  shows "mix_group fuel R maxToProcess backwards i js (maxOut, newTime, mixed) s \<noteq> Unfinished"
  using init step fin
proof (induction js arbitrary: maxOut newTime mixed s)
  case Nil
  show ?case by simp
next
  case (Cons j js)
  show ?case
  proof (cases "mix_input fuel R (i + j) maxToProcess j s")
    case (Done r)
    obtain result s1 where r: "r = (result, s1)" by (cases r)
    have p: "P s1"
      using Cons.prems(1) Done r by (intro Cons.prems(2) [of j s result s1]) simp_all
    have "mix_group fuel R maxToProcess backwards i js
             (max maxOut result,
              (if backwards
               then min newTime (real_of_int (mSamplePos s1 ! (i + j)) / GetRate (mInputTrack s ! (i + j)))
               else max newTime (real_of_int (mSamplePos s1 ! (i + j)) / GetRate (mInputTrack s ! (i + j)))),
              mixed(j := result)) s1 \<noteq> Unfinished"
    proof (rule Cons.IH [OF p])
      fix ja u result u'
      assume "ja \<in> set js" "P u" "mix_input fuel R (i + ja) maxToProcess ja u = Done (result, u')"
      then show "P u'"
        by (intro Cons.prems(2) [of ja u result u']) simp_all
    next
      fix ja u
      assume "ja \<in> set js" "P u"
      then show "mix_input fuel R (i + ja) maxToProcess ja u \<noteq> Unfinished"
        by (intro Cons.prems(3)) simp_all
    qed
    with Done r show ?thesis by (simp add: Let_def)
  next
    case (Raised s1)
    then show ?thesis by (simp add: Let_def)
  next
    case Unfinished
    with Cons.prems(1) Cons.prems(3) [of j s] show ?thesis by simp
  qed
qed

lemma process_tracks_finishes:
  assumes init: "P s"
    and step: "\<And>ii fb s result s'. ii < n \<Longrightarrow> P s \<Longrightarrow>
        mix_input fuel R ii maxToProcess fb s = Done (result, s') \<Longrightarrow> P s'"
    and fin: "\<And>ii fb s. ii < n \<Longrightarrow> P s \<Longrightarrow>
        mix_input fuel R ii maxToProcess fb s \<noteq> Unfinished"
    and temp: "\<And>s temp. P s \<Longrightarrow> P (s\<lparr>mTemp := temp\<rparr>)"
    and groups: "\<And>s i. P s \<Longrightarrow> i < n \<Longrightarrow> 1 \<le> NChannels (mInputTrack s ! i)"
  shows "process_tracks fuel R maxToProcess backwards n i (maxOut, newTime, mixed, gains) s
           \<noteq> Unfinished"
  using init
proof (induction "n - i" arbitrary: i maxOut newTime mixed gains s rule: less_induct)
  case less
  let ?run = "process_tracks fuel R maxToProcess backwards n i (maxOut, newTime, mixed, gains) s"
  define nIn where "nIn = NChannels (mInputTrack s ! i)"
  show ?case
  proof (cases "i < n \<and> i + nIn \<le> n")
    case False
    have "?run = Done ((maxOut, newTime, mixed, gains), s)"
    proof (cases "i < n")
      case False
      then show ?thesis by (simp add: process_tracks.simps)
    next
      case True
      with \<open>\<not> (i < n \<and> i + nIn \<le> n)\<close> have "n < i + nIn" by linarith
      with True show ?thesis by (simp add: process_tracks.simps Let_def nIn_def)
    qed
    then show ?thesis by simp
  next
    case True
    with less.prems groups [of s i] have pos: "nIn \<noteq> 0"
      by (simp add: nIn_def)
    let ?js = "[0..<min nIn 2]"
    let ?grp = "mix_group fuel R maxToProcess backwards i ?js (maxOut, newTime, mixed) s"
    have run: "?run =
        (case ?grp of
           Raised u \<Rightarrow> Raised u
         | Unfinished \<Rightarrow> Unfinished
         | Done ((maxOut1, newTime1, mixed1), s1) \<Rightarrow>
             (case accumulate_group i ?js mixed1 gains s1 of
                (gains2, s2) \<Rightarrow>
                  process_tracks fuel R maxToProcess backwards n (i + nIn)
                    (maxOut1, newTime1, mixed1, gains2) s2))"
      using True pos unfolding nIn_def by (subst process_tracks.simps) (simp add: Let_def)
    have in_range: "i + j < n" if "j \<in> set ?js" for j
      using that True by auto
    have grp_fin: "?grp \<noteq> Unfinished"
    proof (rule mix_group_finishes [where P = P, OF less.prems])
      fix j u result u'
      assume "j \<in> set ?js" "P u" "mix_input fuel R (i + j) maxToProcess j u = Done (result, u')"
      then show "P u'"
        using in_range [of j] by (intro step [of "i + j" u j result u']) simp_all
    next
      fix j u
      assume "j \<in> set ?js" "P u"
      then show "mix_input fuel R (i + j) maxToProcess j u \<noteq> Unfinished"
        using in_range [of j] by (intro fin) simp_all
    qed
    have grp_inv: "(?grp = Done ((maxOut1, newTime1, mixed1), s1) \<longrightarrow> P s1) \<and>
               (?grp = Raised s1 \<longrightarrow> True)" for maxOut1 newTime1 mixed1 s1
    proof (rule mix_group_invariant [where P = "\<lambda>mo nt u. P u" and Q = "\<lambda>u. True", OF less.prems])
      fix j mo nt u result u'
      assume "j \<in> set ?js" "P u" "mix_input fuel R (i + j) maxToProcess j u = Done (result, u')"
      then show "P u'"
        using in_range [of j] by (intro step [of "i + j" u j result u']) simp_all
    qed simp
    show ?thesis
    proof (cases ?grp)
      case (Done r)
      obtain maxOut1 newTime1 mixed1 s1 where r: "r = ((maxOut1, newTime1, mixed1), s1)"
        by (metis prod.collapse)
      obtain gains2 s2 where acc: "accumulate_group i ?js mixed1 gains s1 = (gains2, s2)"
        by (cases "accumulate_group i ?js mixed1 gains s1")
      obtain tmp where "s2 = s1\<lparr>mTemp := tmp\<rparr>"
        using accumulate_group_state [of i ?js mixed1 gains s1] acc by auto
      moreover from grp_inv Done r have "P s1" by blast
      ultimately have p2: "P s2" by (simp add: temp)
      from True pos have "n - (i + nIn) < n - i" by linarith
      from less.hyps [OF this p2, of maxOut1 newTime1 mixed1 gains2] run Done r acc
      show ?thesis by simp
    next
      case (Raised u)
      with run show ?thesis by simp
    next
      case Unfinished
      with grp_fin show ?thesis by simp
    qed
  qed
qed

text \<open>
  When no mixing routine advances its input, the loop of \<^verbatim>\<open>Process\<close> returns with
  \<open>maxOut = 0\<close> and the object as it was, the accumulators apart; and \<open>newTime\<close> is as
  it was when no cursor lies beyond it in the play direction.
\<close>

lemma process_tracks_idle:
  fixes s :: "'r Mixer"
  assumes idle: "\<And>ii fb tmp. ii < n \<Longrightarrow>
        mix_input fuel R ii maxToProcess fb (s\<lparr>mTemp := tmp\<rparr>) = Done (0, s\<lparr>mTemp := tmp\<rparr>)"
    and groups: "\<And>i. i < n \<Longrightarrow> 1 \<le> NChannels (mInputTrack s ! i)"
  shows "\<exists>newTime' mixed' gains' tmp.
           process_tracks fuel R maxToProcess backwards n 0 (0, newTime, mixed, gains)
             (s\<lparr>mTemp := tmp0\<rparr>) =
           Done ((0, newTime', mixed', gains'), s\<lparr>mTemp := tmp\<rparr>) \<and>
           ((\<forall>ii<n. if backwards
                     then newTime \<le> real_of_int (mSamplePos s ! ii) / GetRate (mInputTrack s ! ii)
                     else real_of_int (mSamplePos s ! ii) / GetRate (mInputTrack s ! ii) \<le> newTime)
            \<longrightarrow> newTime' = newTime)"
proof -
  let ?H = "\<forall>ii<n. if backwards
                     then newTime \<le> real_of_int (mSamplePos s ! ii) / GetRate (mInputTrack s ! ii)
                     else real_of_int (mSamplePos s ! ii) / GetRate (mInputTrack s ! ii) \<le> newTime"
  let ?U = "\<lambda>u. \<exists>tmp. u = s\<lparr>mTemp := tmp\<rparr>"
  let ?P = "\<lambda>mo nt u. mo = (0::nat) \<and> ?U u \<and> (?H \<longrightarrow> nt = newTime)"
  let ?run = "process_tracks fuel R maxToProcess backwards n 0 (0, newTime, mixed, gains)
             (s\<lparr>mTemp := tmp0\<rparr>)"
  have same: "result = 0 \<and> u' = u"
    if "ii < n" "?U u" "mix_input fuel R ii maxToProcess fb u = Done (result, u')"
    for ii fb u result u'
    using that idle [of ii fb] by auto
  have never: "mix_input fuel R ii maxToProcess fb u \<noteq> Raised u' \<and>
               mix_input fuel R ii maxToProcess fb u \<noteq> Unfinished"
    if "ii < n" "?U u" for ii fb u u'
    using that idle [of ii fb] by auto
  have fin: "?run \<noteq> Unfinished"
  proof (rule process_tracks_finishes [where P = ?U])
    show "?U (s\<lparr>mTemp := tmp0\<rparr>)" by blast
  next
    fix ii fb u result u'
    assume "ii < n" "?U u" "mix_input fuel R ii maxToProcess fb u = Done (result, u')"
    then show "?U u'" using same by blast
  next
    fix ii fb u
    assume "ii < n" "?U u"
    then show "mix_input fuel R ii maxToProcess fb u \<noteq> Unfinished" using never by blast
  next
    fix u tmp
    assume "?U u"
    then obtain t where "u = s\<lparr>mTemp := t\<rparr>" by blast
    then have "u\<lparr>mTemp := tmp\<rparr> = s\<lparr>mTemp := tmp\<rparr>" by simp
    then show "?U (u\<lparr>mTemp := tmp\<rparr>)" by (rule exI)
  next
    fix u i
    assume "?U u" "i < n"
    then show "1 \<le> NChannels (mInputTrack u ! i)" using groups [of i] by auto
  qed
  have inv: "(?run = Done ((maxOut', newTime', mixed', gains'), s') \<longrightarrow> ?P maxOut' newTime' s') \<and>
             (?run = Raised s' \<longrightarrow> False)" for maxOut' newTime' mixed' gains' s'
  proof (rule process_tracks_invariant [where P = ?P and Q = "\<lambda>u. False"])
    show "?P 0 newTime (s\<lparr>mTemp := tmp0\<rparr>)" by blast
  next
    fix ii fb mo nt u result u'
    assume a: "ii < n" "?P mo nt u" "mix_input fuel R ii maxToProcess fb u = Done (result, u')"
    then have r: "result = 0" "u' = u" using same [of ii u fb result u'] by simp_all
    from a obtain t where u: "u = s\<lparr>mTemp := t\<rparr>" by blast
    have "?H \<longrightarrow>
        (if backwards
         then min nt (real_of_int (mSamplePos u' ! ii) / GetRate (mInputTrack u ! ii))
         else max nt (real_of_int (mSamplePos u' ! ii) / GetRate (mInputTrack u ! ii))) = newTime"
    proof
      assume h: ?H
      with a have "nt = newTime" by simp
      moreover from h \<open>ii < n\<close> have
        "if backwards
         then newTime \<le> real_of_int (mSamplePos s ! ii) / GetRate (mInputTrack s ! ii)
         else real_of_int (mSamplePos s ! ii) / GetRate (mInputTrack s ! ii) \<le> newTime"
        by blast
      ultimately show
        "(if backwards
         then min nt (real_of_int (mSamplePos u' ! ii) / GetRate (mInputTrack u ! ii))
         else max nt (real_of_int (mSamplePos u' ! ii) / GetRate (mInputTrack u ! ii))) = newTime"
        by (simp add: r u split: if_splits)
    qed
    with a r show "?P (max mo result)
        (if backwards
         then min nt (real_of_int (mSamplePos u' ! ii) / GetRate (mInputTrack u ! ii))
         else max nt (real_of_int (mSamplePos u' ! ii) / GetRate (mInputTrack u ! ii))) u'"
      by simp
  next
    fix ii fb mo nt u u'
    assume "ii < n" "?P mo nt u" "mix_input fuel R ii maxToProcess fb u = Raised u'"
    then show False using never [of ii u fb u'] by blast
  next
    fix mo nt u tmp
    assume a: "?P mo nt u"
    then obtain t where "u = s\<lparr>mTemp := t\<rparr>" by blast
    then have "u\<lparr>mTemp := tmp\<rparr> = s\<lparr>mTemp := tmp\<rparr>" by simp
    then have "?U (u\<lparr>mTemp := tmp\<rparr>)" by (rule exI)
    with a show "?P mo nt (u\<lparr>mTemp := tmp\<rparr>)" by blast
  qed
  from fin inv obtain r where r: "?run = Done r"
    by (cases ?run) auto
  obtain maxOut' newTime' mixed' gains' s' where
    r': "r = ((maxOut', newTime', mixed', gains'), s')"
    by (metis prod.collapse)
  from inv [of maxOut' newTime' mixed' gains' s'] r r' have "?P maxOut' newTime' s'"
    by simp
  with r r' show ?thesis by auto
qed

lemma groups_ok_nth:
  "Mixer_wf s \<Longrightarrow> groups_ok s \<Longrightarrow> i < mNumInputTracks s \<Longrightarrow>
   1 \<le> NChannels (mInputTrack s ! i)"
  by (simp add: Mixer_wf_def groups_ok_def list_all_length)

text \<open>A \<^verbatim>\<open>Process\<close> in which no mixing routine advances its input.\<close>

lemma Process_idle:
  fixes s :: "'r Mixer"
  assumes wf: "Mixer_wf s" and groups: "groups_ok s"
    and idle: "\<And>ii fb tmp. ii < mNumInputTracks s \<Longrightarrow>
        mix_input fuel R ii maxToProcess fb (s\<lparr>mTemp := tmp\<rparr>) = Done (0, s\<lparr>mTemp := tmp\<rparr>)"
  shows "\<exists>tmp newTime'.
           Process fuel R maxToProcess s =
             Done (0, s\<lparr>mTemp := tmp,
                         mTime := (if mT0 s > mT1 s then std_clamp newTime' (mT1 s) (mTime s)
                                   else std_clamp newTime' (mTime s) (mT1 s))\<rparr>) \<and>
           ((\<forall>ii<mNumInputTracks s.
               if mT1 s < mT0 s
               then mTime s \<le> real_of_int (mSamplePos s ! ii) / GetRate (mInputTrack s ! ii)
               else real_of_int (mSamplePos s ! ii) / GetRate (mInputTrack s ! ii) \<le> mTime s)
            \<longrightarrow> newTime' = mTime s)"
proof -
  obtain newTime' mixed' gains' tmp where
    run: "process_tracks fuel R maxToProcess (mT0 s > mT1 s) (mNumInputTracks s) 0
            (0, mTime s, (\<lambda>j. 0), replicate (mNumChannels s) (Finite 1))
            (s\<lparr>mTemp := map (\<lambda>buffer. replicate (length buffer) (Finite 0)) (mTemp s)\<rparr>) =
          Done ((0, newTime', mixed', gains'), s\<lparr>mTemp := tmp\<rparr>)"
    and nt: "(\<forall>ii<mNumInputTracks s.
               if mT0 s > mT1 s
               then mTime s \<le> real_of_int (mSamplePos s ! ii) / GetRate (mInputTrack s ! ii)
               else real_of_int (mSamplePos s ! ii) / GetRate (mInputTrack s ! ii) \<le> mTime s)
            \<longrightarrow> newTime' = mTime s"
    using process_tracks_idle [of "mNumInputTracks s" fuel R maxToProcess s "mT0 s > mT1 s"
        "mTime s" "\<lambda>j. 0" "replicate (mNumChannels s) (Finite 1)"
        "map (\<lambda>buffer. replicate (length buffer) (Finite 0)) (mTemp s)", OF idle groups_ok_nth [OF wf groups]]
    by blast
  from run have "Process fuel R maxToProcess s =
             Done (0, s\<lparr>mTemp := tmp,
                         mTime := (if mT0 s > mT1 s then std_clamp newTime' (mT1 s) (mTime s)
                                   else std_clamp newTime' (mTime s) (mT1 s))\<rparr>)"
    by (simp add: Process_def Clear_def Let_def)
  with nt show ?thesis by blast
qed

text \<open>
  C5, as the code has it.  In an object of the constructor's sizes whose channel groups
  are not empty and whose empty reads do not throw, \<open>Process(0)\<close> returns 0 and leaves
  every cursor \<open>pos\<close>, every queue (\<open>queueStart\<close>, \<open>queueLen\<close>, and its samples), every
  resampler and the bounds as they were.  The current time is re-derived from the cursors:
  it stays as it was when it lay in the play interval and no cursor time \<open>pos / rate\<close> lay
  beyond it in the play direction, and in any case it moves toward \<open>T1\<close> only.
\<close>

theorem Process_zero:
  fixes s :: "'r Mixer"
  assumes wf: "Mixer_wf s" and groups: "groups_ok s"
    and nothrow: "\<forall>ii < mNumInputTracks s. \<forall>start.
        GetFloats (mInputTrack s ! ii) start 0 (mMayThrow s) \<noteq> ReadThrows"
  shows "\<exists>s'. Process fuel R 0 s = Done (0, s') \<and>
           mSamplePos s' = mSamplePos s \<and> mQueueStart s' = mQueueStart s \<and>
           mQueueLen s' = mQueueLen s \<and> mSampleQueue s' = mSampleQueue s \<and>
           mResample s' = mResample s \<and> mT0 s' = mT0 s \<and> mT1 s' = mT1 s \<and>
           (time_inv s \<and>
            (\<forall>ii<mNumInputTracks s.
               if mT1 s < mT0 s
               then mTime s \<le> real_of_int (mSamplePos s ! ii) / GetRate (mInputTrack s ! ii)
               else real_of_int (mSamplePos s ! ii) / GetRate (mInputTrack s ! ii) \<le> mTime s)
            \<longrightarrow> mTime s' = mTime s) \<and>
           (time_inv s \<longrightarrow>
              (if mT0 s \<le> mT1 s then mTime s \<le> mTime s' \<and> mTime s' \<le> mT1 s
               else mT1 s \<le> mTime s' \<and> mTime s' \<le> mTime s))"
proof -
  have idle: "mix_input fuel R ii 0 fb (s\<lparr>mTemp := tmp\<rparr>) = Done (0, s\<lparr>mTemp := tmp\<rparr>)"
    if "ii < mNumInputTracks s" for ii fb tmp
    using that nothrow by (intro mix_input_zero) simp
  obtain tmp newTime' where
    run: "Process fuel R 0 s =
             Done (0, s\<lparr>mTemp := tmp,
                         mTime := (if mT0 s > mT1 s then std_clamp newTime' (mT1 s) (mTime s)
                                   else std_clamp newTime' (mTime s) (mT1 s))\<rparr>)"
    and nt: "(\<forall>ii<mNumInputTracks s.
               if mT1 s < mT0 s
               then mTime s \<le> real_of_int (mSamplePos s ! ii) / GetRate (mInputTrack s ! ii)
               else real_of_int (mSamplePos s ! ii) / GetRate (mInputTrack s ! ii) \<le> mTime s)
            \<longrightarrow> newTime' = mTime s"
    using Process_idle [OF wf groups idle] by blast
  define s' where "s' = s\<lparr>mTemp := tmp,
               mTime := (if mT0 s > mT1 s then std_clamp newTime' (mT1 s) (mTime s)
                         else std_clamp newTime' (mTime s) (mT1 s))\<rparr>"
  from run have run': "Process fuel R 0 s = Done (0, s')"
    by (simp add: s'_def)
  have fields: "mSamplePos s' = mSamplePos s" "mQueueStart s' = mQueueStart s"
    "mQueueLen s' = mQueueLen s" "mSampleQueue s' = mSampleQueue s"
    "mResample s' = mResample s" "mT0 s' = mT0 s" "mT1 s' = mT1 s"
    by (simp_all add: s'_def)
  have same: "mTime s' = mTime s"
    if "time_inv s \<and> (\<forall>ii<mNumInputTracks s.
               if mT1 s < mT0 s
               then mTime s \<le> real_of_int (mSamplePos s ! ii) / GetRate (mInputTrack s ! ii)
               else real_of_int (mSamplePos s ! ii) / GetRate (mInputTrack s ! ii) \<le> mTime s)"
  proof -
    from that nt have "newTime' = mTime s" by blast
    with that show ?thesis
      by (auto simp: s'_def std_clamp_def time_inv_def)
  qed
  have toward: "if mT0 s \<le> mT1 s then mTime s \<le> mTime s' \<and> mTime s' \<le> mT1 s
               else mT1 s \<le> mTime s' \<and> mTime s' \<le> mTime s" if "time_inv s"
    using Process_time [OF that run'] by simp
  show ?thesis
    using run' fields same toward by (intro exI [of _ s'] conjI impI) blast+
qed

lemma example_mixer_more_fields:
  "mSamplePos (example_mixer track) = [TimeToLongSamples track (6 / 10)]"
  "mMayThrow (example_mixer track) = False"
  "mRate (example_mixer track) = 1"
  "mbVariableRates (mResampleParameters (example_mixer track)) = False"
  "mQueueStart (example_mixer track) = [0]"
  "mQueueLen (example_mixer track) = [0]"
  by (simp_all add: example_mixer_def Mixer_new_def MakeResamplers_def
      ResampleParameters_new_def Warp_speeds_def Let_def)

lemma example_mixer_groups_ok: "groups_ok (example_mixer example_track)"
  by (simp add: groups_ok_def example_mixer_fields example_track_def)

theorem Process_zero_witness:
  "Mixer_wf ((example_mixer example_track)\<lparr>mSamplePos := [0]\<rparr>) \<and>
   groups_ok ((example_mixer example_track)\<lparr>mSamplePos := [0]\<rparr>) \<and>
   time_inv ((example_mixer example_track)\<lparr>mSamplePos := [0]\<rparr>) \<and>
   (\<exists>s'. Process 10 example_resampler 0 ((example_mixer example_track)\<lparr>mSamplePos := [0]\<rparr>) =
           Done (0, s') \<and>
         mSamplePos s' = [0] \<and> mQueueStart s' = [0] \<and> mQueueLen s' = [0] \<and>
         mTime s' = 6 / 10)"
proof -
  let ?m = "(example_mixer example_track)\<lparr>mSamplePos := [0]\<rparr>"
  have wf: "Mixer_wf ?m"
    using example_mixer_wf [of example_track] by (simp add: Mixer_wf_def example_mixer_fields)
  have groups: "groups_ok ?m"
    using example_mixer_groups_ok by (simp add: groups_ok_def)
  have nothrow: "\<forall>ii < mNumInputTracks ?m. \<forall>start.
        GetFloats (mInputTrack ?m ! ii) start 0 (mMayThrow ?m) \<noteq> ReadThrows"
    by (simp add: example_mixer_fields example_track_def)
  have ti: "time_inv ?m"
    by (simp add: time_inv_def example_mixer_fields)
  have cursors: "\<forall>ii<mNumInputTracks ?m.
               if mT1 ?m < mT0 ?m
               then mTime ?m \<le> real_of_int (mSamplePos ?m ! ii) / GetRate (mInputTrack ?m ! ii)
               else real_of_int (mSamplePos ?m ! ii) / GetRate (mInputTrack ?m ! ii) \<le> mTime ?m"
    by (simp add: example_mixer_fields example_track_def)
  from Process_zero [OF wf groups nothrow, of 10 example_resampler] obtain s' where
    "Process 10 example_resampler 0 ?m = Done (0, s')"
    "mSamplePos s' = mSamplePos ?m" "mQueueStart s' = mQueueStart ?m"
    "mQueueLen s' = mQueueLen ?m"
    "time_inv ?m \<and> (\<forall>ii<mNumInputTracks ?m.
               if mT1 ?m < mT0 ?m
               then mTime ?m \<le> real_of_int (mSamplePos ?m ! ii) / GetRate (mInputTrack ?m ! ii)
               else real_of_int (mSamplePos ?m ! ii) / GetRate (mInputTrack ?m ! ii) \<le> mTime ?m)
            \<longrightarrow> mTime s' = mTime ?m"
    by blast
  with ti cursors have
    "Process 10 example_resampler 0 ?m = Done (0, s') \<and>
     mSamplePos s' = [0] \<and> mQueueStart s' = [0] \<and> mQueueLen s' = [0] \<and> mTime s' = 6 / 10"
    by (simp add: example_mixer_fields example_mixer_more_fields)
  then have "\<exists>s'. Process 10 example_resampler 0 ?m = Done (0, s') \<and>
     mSamplePos s' = [0] \<and> mQueueStart s' = [0] \<and> mQueueLen s' = [0] \<and> mTime s' = 6 / 10"
    by (rule exI)
  with wf groups ti show ?thesis by blast
qed

text \<open>
  The claim as worded fails on the time: the engine that the constructor makes for a start
  time of 0.6 s over a 1 Hz track has its cursor at sample 1, the nearest to 0.6 s, and
  \<open>Process(0)\<close> on it returns 0 and moves the current time from 0.6 s to 1 s, the time
  of the cursor.
\<close>

theorem Process_zero_time_counterexample:
  "Mixer_wf (example_mixer example_track) \<and> groups_ok (example_mixer example_track) \<and>
   time_inv (example_mixer example_track) \<and>
   returned (Process 10 example_resampler 0 (example_mixer example_track)) = Some 0 \<and>
   mTime (example_mixer example_track) = 6 / 10 \<and>
   map_option mTime (left_object (Process 10 example_resampler 0 (example_mixer example_track))) =
     Some 1"
proof -
  have "returned (Process 10 example_resampler 0 (example_mixer example_track)) = Some 0 \<and>
    mTime (example_mixer example_track) = 6 / 10 \<and>
    map_option mTime (left_object (Process 10 example_resampler 0 (example_mixer example_track))) =
      Some 1"
    by code_simp
  moreover have "time_inv (example_mixer example_track)"
    by (simp add: time_inv_def example_mixer_fields)
  ultimately show ?thesis
    using example_mixer_wf [of example_track] example_mixer_groups_ok by simp
qed

lemma at_end_updates [simp]:
  "at_end (s\<lparr>mTemp := tmp\<rparr>) ii = at_end s ii"
  "at_end (s\<lparr>mTime := x\<rparr>) ii = at_end s ii"
  by (simp_all add: at_end_def)

lemma same_rate_updates [simp]:
  "same_rate (s\<lparr>mTemp := tmp\<rparr>) ii = same_rate s ii"
  "same_rate (s\<lparr>mTime := x\<rparr>) ii = same_rate s ii"
  by (simp_all add: same_rate_def)



subsection \<open>Reads that return null\<close>

lemma copy_into_length [simp]: "length (copy_into buf off xs) = length buf"
  by (auto simp: copy_into_def)


lemma apply_envelope_length [simp]: "length (apply_envelope buf off n env) = length buf"
proof -
  have "length (fold (\<lambda>i b. b[off + i := float_times_double (b ! (off + i)) (env ! i)]) js buf) =
      length buf" for js
    by (induction js arbitrary: buf) simp_all
  then show ?thesis by (simp add: apply_envelope_def)
qed


lemma ReverseSamples_length [simp]: "length (ReverseSamples buf start len) = length buf"
  by (auto simp: ReverseSamples_def)







text \<open>What a returning \<^verbatim>\<open>MixSameRate\<close> has done.\<close>

lemma MixSameRate_Done:
  assumes "MixSameRate ii maxOut fb s = Done (n, s')"
  shows "n \<le> maxOut \<and>
         (n = 0 \<and> s' = s \<or>
          (\<exists>env. env = mEnvValues s' \<and>
             GetFloats (mInputTrack s ! ii)
               (if mT1 s < mT0 s then mSamplePos s ! ii - (int n - 1) else mSamplePos s ! ii) n
               (mMayThrow s) \<noteq> ReadThrows \<and>
             mFloatBuffers s' = (mFloatBuffers s)[fb :=
               (let filled =
                  apply_envelope
                    (store_floats (mFloatBuffers s ! fb) 0 n
                       (GetFloats (mInputTrack s ! ii)
                          (if mT1 s < mT0 s then mSamplePos s ! ii - (int n - 1)
                           else mSamplePos s ! ii) n (mMayThrow s)))
                    0 n env
                in if mT1 s < mT0 s then ReverseSamples filled 0 n else filled)] \<and>
             mSamplePos s' = (mSamplePos s)[ii :=
               (if mT1 s < mT0 s then mSamplePos s ! ii - int n else mSamplePos s ! ii + int n)] \<and>
             mQueueStart s' = mQueueStart s \<and> mQueueLen s' = mQueueLen s \<and>
             mSampleQueue s' = mSampleQueue s \<and> mResample s' = mResample s \<and>
             mTemp s' = mTemp s))"
  using assms limitSampleBufferSize_le [of maxOut]
  by (auto simp: MixSameRate_def Let_def split: if_splits floats_result.splits)

text \<open>What a returning refill has done.\<close>

lemma refill_queue_Done:
  fixes s :: "'r Mixer" and getLen :: nat and start :: int and queue1 :: "ieee list"
  assumes "refill_queue ii s = Done s'"
  defines "getLen \<equiv> limitSampleBufferSize
             (size_t_of_int (int (sQueueMaxLen s) - mQueueLen s ! ii)) (remaining_input s ii)"
    and "start \<equiv> (if mT1 s < mT0 s then mSamplePos s ! ii - (int getLen - 1) else mSamplePos s ! ii)"
    and "queue1 \<equiv> copy_into (mSampleQueue s ! ii) 0
                     (take (nat (mQueueLen s ! ii))
                        (drop (nat (mQueueStart s ! ii)) (mSampleQueue s ! ii)))"
  shows "mQueueStart s' = (mQueueStart s)[ii := 0] \<and>
         mResample s' = mResample s \<and> mFloatBuffers s' = mFloatBuffers s \<and> mTemp s' = mTemp s \<and>
         (if 0 < getLen then
            GetFloats (mInputTrack s ! ii) start getLen (mMayThrow s) \<noteq> ReadThrows \<and>
            mQueueLen s' = (mQueueLen s)[ii := mQueueLen s ! ii + int getLen] \<and>
            mSamplePos s' = (mSamplePos s)[ii :=
              (if mT1 s < mT0 s then mSamplePos s ! ii - int getLen
               else mSamplePos s ! ii + int getLen)] \<and>
            (\<exists>env. env = mEnvValues s' \<and> mSampleQueue s' = (mSampleQueue s)[ii :=
               (let filled =
                  apply_envelope
                    (store_floats queue1 (nat (mQueueLen s ! ii)) getLen
                       (GetFloats (mInputTrack s ! ii) start getLen (mMayThrow s)))
                    (nat (mQueueLen s ! ii)) getLen env
                in if mT1 s < mT0 s then ReverseSamples filled (nat (mQueueLen s ! ii)) getLen
                   else filled)])
          else
            mQueueLen s' = mQueueLen s \<and> mSamplePos s' = mSamplePos s \<and>
            mSampleQueue s' = (mSampleQueue s)[ii := queue1])"
  using assms(1)
  unfolding getLen_def start_def queue1_def remaining_input_def
  by (auto simp: refill_queue_def Let_def split: if_splits floats_result.splits)

lemma size_t_of_int_id: "0 \<le> i \<Longrightarrow> i < 2 ^ 64 \<Longrightarrow> size_t_of_int i = nat i"
  by (simp add: size_t_of_int_def)




lemma example_mixer_buffers:
  "mFloatBuffers (example_mixer track) = [replicate 5 (Finite 0), replicate 5 (Finite 0)]"
  "mSampleQueue (example_mixer track) = [replicate 4 (Finite 0)]"
  "sQueueMaxLen (example_mixer track) = 4"
  "sProcessLen (example_mixer track) = 2"
  by (simp_all add: example_mixer_def Mixer_new_def MakeResamplers_def)




subsection \<open>The count that the mixing routines return\<close>

lemma not_behind_refl [simp]: "not_behind s s"
  by (simp add: not_behind_def)

lemma not_behind_trans: "not_behind s s' \<Longrightarrow> not_behind s' s'' \<Longrightarrow> not_behind s s''"
  unfolding not_behind_def by (meson mix_frame_trans order_trans)

lemma not_behindI:
  assumes "mix_frame s s'"
    and "\<And>jj. queue_inv s jj \<Longrightarrow> queue_inv s' jj \<and> pending_input s' jj \<le> pending_input s jj"
  shows "not_behind s s'"
  using assms by (simp add: not_behind_def)

lemma remaining_input_cong:
  "mInputTrack s' = mInputTrack s \<Longrightarrow> mT0 s' = mT0 s \<Longrightarrow> mT1 s' = mT1 s \<Longrightarrow>
   mSamplePos s' ! jj = mSamplePos s ! jj \<Longrightarrow> remaining_input s' jj = remaining_input s jj"
  by (simp add: remaining_input_def Let_def)

lemma remaining_input_moved:
  "mInputTrack s' = mInputTrack s \<Longrightarrow> mT0 s' = mT0 s \<Longrightarrow> mT1 s' = mT1 s \<Longrightarrow>
   mSamplePos s' ! jj = (if mT1 s < mT0 s then mSamplePos s ! jj - d else mSamplePos s ! jj + d) \<Longrightarrow>
   remaining_input s' jj = remaining_input s jj - d"
  by (simp add: remaining_input_def Let_def)

lemma MixSameRate_not_behind:
  assumes run: "MixSameRate ii maxOut fb s = Done (n, s')"
  shows "not_behind s s'"
proof (rule not_behindI)
  show fr: "mix_frame s s'" using run by (rule MixSameRate_frame)
  fix jj
  assume qi: "queue_inv s jj"
  from MixSameRate_Done [OF run] have
    q: "mQueueStart s' = mQueueStart s" "mQueueLen s' = mQueueLen s"
       "mSampleQueue s' = mSampleQueue s"
    and pos: "mSamplePos s' = mSamplePos s \<or>
       mSamplePos s' = (mSamplePos s)[ii :=
               (if mT1 s < mT0 s then mSamplePos s ! ii - int n else mSamplePos s ! ii + int n)]"
    by auto
  from fr have c: "mInputTrack s' = mInputTrack s" "mT0 s' = mT0 s" "mT1 s' = mT1 s"
    "sQueueMaxLen s' = sQueueMaxLen s" "length (mSamplePos s') = length (mSamplePos s)"
    by (simp_all add: mix_frame_def)
  from qi q c have 1: "queue_inv s' jj"
    by (simp add: queue_inv_def)
  have "remaining_input s' jj \<le> remaining_input s jj"
  proof (cases "jj = ii \<and> mSamplePos s' \<noteq> mSamplePos s")
    case True
    with pos qi have "mSamplePos s' ! jj =
        (if mT1 s < mT0 s then mSamplePos s ! jj - int n else mSamplePos s ! jj + int n)"
      by (auto simp: queue_inv_def)
    from remaining_input_moved [OF c(1-3) this] show ?thesis by simp
  next
    case False
    with pos have "mSamplePos s' ! jj = mSamplePos s ! jj" by auto
    from remaining_input_cong [OF c(1-3) this] show ?thesis by simp
  qed
  with q have 2: "pending_input s' jj \<le> pending_input s jj"
    by (simp add: pending_input_def)
  from 1 2 show "queue_inv s' jj \<and> pending_input s' jj \<le> pending_input s jj" ..
qed

lemma refill_queue_Raised:
  assumes "refill_queue ii s = Raised s'"
  shows "s' = s\<lparr>mSampleQueue := (mSampleQueue s)[ii :=
                  copy_into (mSampleQueue s ! ii) 0
                    (take (nat (mQueueLen s ! ii))
                       (drop (nat (mQueueStart s ! ii)) (mSampleQueue s ! ii)))],
               mQueueStart := (mQueueStart s)[ii := 0]\<rparr>"
  using assms
  by (auto simp: refill_queue_def Let_def split: if_splits floats_result.splits)

lemma store_floats_length [simp]: "length (store_floats buf off n results) = length buf"
  by (simp add: store_floats_def)

lemma limitSampleBufferSize_le_limit: "int (limitSampleBufferSize bufferSize limit) \<le> max 0 limit"
  by (simp add: limitSampleBufferSize_def)

lemma refill_queue_not_behind:
  fixes s :: "'r Mixer"
  assumes run: "refill_queue ii s = Done s' \<or> refill_queue ii s = Raised s'"
  shows "not_behind s s'"
proof (rule not_behindI)
  show fr: "mix_frame s s'" using run by (rule refill_queue_frame)
  then have c: "mInputTrack s' = mInputTrack s" "mT0 s' = mT0 s" "mT1 s' = mT1 s"
    "sQueueMaxLen s' = sQueueMaxLen s" "length (mSamplePos s') = length (mSamplePos s)"
    "length (mSampleQueue s') = length (mSampleQueue s)"
    "length (mQueueStart s') = length (mQueueStart s)"
    "length (mQueueLen s') = length (mQueueLen s)"
    by (simp_all add: mix_frame_def)
  fix jj
  assume qi: "queue_inv s jj"
  define getLen where "getLen = limitSampleBufferSize
             (size_t_of_int (int (sQueueMaxLen s) - mQueueLen s ! ii)) (remaining_input s ii)"
  define queue1 where "queue1 = copy_into (mSampleQueue s ! ii) 0
                     (take (nat (mQueueLen s ! ii))
                        (drop (nat (mQueueStart s ! ii)) (mSampleQueue s ! ii)))"
  have len1: "length queue1 = length (mSampleQueue s ! ii)"
    by (simp add: queue1_def)
  have "\<exists>g queue'. (g = 0 \<or> g = getLen) \<and>
          length queue' = length (mSampleQueue s ! ii) \<and>
          mSampleQueue s' = (mSampleQueue s)[ii := queue'] \<and>
          mQueueStart s' = (mQueueStart s)[ii := 0] \<and>
          mQueueLen s' = (mQueueLen s)[ii := mQueueLen s ! ii + int g] \<and>
          mSamplePos s' = (mSamplePos s)[ii :=
              (if mT1 s < mT0 s then mSamplePos s ! ii - int g else mSamplePos s ! ii + int g)]"
  proof (cases "refill_queue ii s")
    case (Done u)
    with run have d: "refill_queue ii s = Done s'" by simp
    note st = refill_queue_Done [OF d, folded getLen_def queue1_def]
    show ?thesis
    proof (cases "0 < getLen")
      case True
      with st obtain env where
        "mSampleQueue s' = (mSampleQueue s)[ii :=
               (let filled =
                  apply_envelope
                    (store_floats queue1 (nat (mQueueLen s ! ii)) getLen
                       (GetFloats (mInputTrack s ! ii)
                          (if mT1 s < mT0 s then mSamplePos s ! ii - (int getLen - 1)
                           else mSamplePos s ! ii) getLen (mMayThrow s)))
                    (nat (mQueueLen s ! ii)) getLen env
                in if mT1 s < mT0 s then ReverseSamples filled (nat (mQueueLen s ! ii)) getLen
                   else filled)]"
        by auto
      moreover have "length (let filled =
                  apply_envelope
                    (store_floats queue1 (nat (mQueueLen s ! ii)) getLen
                       (GetFloats (mInputTrack s ! ii)
                          (if mT1 s < mT0 s then mSamplePos s ! ii - (int getLen - 1)
                           else mSamplePos s ! ii) getLen (mMayThrow s)))
                    (nat (mQueueLen s ! ii)) getLen env
                in if mT1 s < mT0 s then ReverseSamples filled (nat (mQueueLen s ! ii)) getLen
                   else filled) = length (mSampleQueue s ! ii)"
        by (simp add: Let_def len1)
      ultimately show ?thesis
        using st True by (intro exI [of _ getLen]) auto
    next
      case False
      with st have "mSampleQueue s' = (mSampleQueue s)[ii := queue1]"
        "mQueueStart s' = (mQueueStart s)[ii := 0]"
        "mQueueLen s' = (mQueueLen s)[ii := mQueueLen s ! ii + int 0]"
        "mSamplePos s' = (mSamplePos s)[ii :=
              (if mT1 s < mT0 s then mSamplePos s ! ii - int 0 else mSamplePos s ! ii + int 0)]"
        by simp_all
      with len1 show ?thesis
        by (intro exI [of _ 0] exI [of _ queue1]) simp
    qed
  next
    case (Raised u)
    with run have "refill_queue ii s = Raised s'" by simp
    from refill_queue_Raised [OF this] have
      "mSampleQueue s' = (mSampleQueue s)[ii := queue1]"
      "mQueueStart s' = (mQueueStart s)[ii := 0]"
      "mQueueLen s' = (mQueueLen s)[ii := mQueueLen s ! ii + int 0]"
      "mSamplePos s' = (mSamplePos s)[ii :=
            (if mT1 s < mT0 s then mSamplePos s ! ii - int 0 else mSamplePos s ! ii + int 0)]"
      by (simp_all add: queue1_def)
    with len1 show ?thesis
      by (intro exI [of _ 0] exI [of _ queue1]) simp
  next
    case Unfinished
    with run show ?thesis by simp
  qed
  then obtain g queue' where g: "g = 0 \<or> g = getLen"
    and w: "length queue' = length (mSampleQueue s ! ii)"
      "mSampleQueue s' = (mSampleQueue s)[ii := queue']"
      "mQueueStart s' = (mQueueStart s)[ii := 0]"
      "mQueueLen s' = (mQueueLen s)[ii := mQueueLen s ! ii + int g]"
      "mSamplePos s' = (mSamplePos s)[ii :=
          (if mT1 s < mT0 s then mSamplePos s ! ii - int g else mSamplePos s ! ii + int g)]"
    by blast
  show "queue_inv s' jj \<and> pending_input s' jj \<le> pending_input s jj"
  proof (cases "jj = ii")
    case False
    with w have same: "mSampleQueue s' ! jj = mSampleQueue s ! jj"
      "mQueueStart s' ! jj = mQueueStart s ! jj" "mQueueLen s' ! jj = mQueueLen s ! jj"
      "mSamplePos s' ! jj = mSamplePos s ! jj"
      by simp_all
    with qi c have "queue_inv s' jj"
      by (simp add: queue_inv_def)
    moreover from remaining_input_cong [OF c(1-3) same(4)] same
    have "pending_input s' jj = pending_input s jj"
      by (simp add: pending_input_def)
    ultimately show ?thesis by simp
  next
    case True
    from qi True have q: "ii < length (mSamplePos s)" "ii < length (mSampleQueue s)"
      "ii < length (mQueueStart s)" "ii < length (mQueueLen s)"
      "length (mSampleQueue s ! ii) = sQueueMaxLen s" "sQueueMaxLen s < 2 ^ 64"
      "0 \<le> mQueueStart s ! ii" "0 \<le> mQueueLen s ! ii"
      "mQueueStart s ! ii + mQueueLen s ! ii \<le> int (sQueueMaxLen s)"
      by (simp_all add: queue_inv_def)
    from q have "size_t_of_int (int (sQueueMaxLen s) - mQueueLen s ! ii) =
        nat (int (sQueueMaxLen s) - mQueueLen s ! ii)"
      by (intro size_t_of_int_id) simp_all
    then have "int getLen \<le> int (sQueueMaxLen s) - mQueueLen s ! ii"
      using limitSampleBufferSize_le [of "size_t_of_int (int (sQueueMaxLen s) - mQueueLen s ! ii)"
          "remaining_input s ii"] q
      by (simp add: getLen_def)
    with g q have room: "mQueueLen s ! ii + int g \<le> int (sQueueMaxLen s)"
      by auto
    have "int getLen \<le> max 0 (remaining_input s ii)"
      unfolding getLen_def by (rule limitSampleBufferSize_le_limit)
    with g have lim: "int g \<le> max 0 (remaining_input s ii)"
      by auto
    from w q have at: "mSampleQueue s' ! ii = queue'" "mQueueStart s' ! ii = 0"
      "mQueueLen s' ! ii = mQueueLen s ! ii + int g"
      "mSamplePos s' ! ii =
          (if mT1 s < mT0 s then mSamplePos s ! ii - int g else mSamplePos s ! ii + int g)"
      by simp_all
    from at w q c room have 1: "queue_inv s' ii"
      by (simp add: queue_inv_def)
    from remaining_input_moved [OF c(1-3) at(4)]
    have "remaining_input s' ii = remaining_input s ii - int g" .
    with at lim q have 2: "pending_input s' ii \<le> pending_input s ii"
      by (simp add: pending_input_def)
    from 1 2 True show ?thesis by simp
  qed
qed

text \<open>
  One slice through a resampler that keeps its contract: the count stays within
  \<open>maxOut\<close>, the queues keep their invariants, nothing more is pending than before, and
  unless the slice is the last one, the room for output and the pending input together
  have shrunk.
\<close>

lemma resample_slice_step:
  fixes s :: "'r Mixer"
  assumes sl: "resample_slice R ii maxOut fb out t s = (isLast, out', t', s')"
    and bounded: "Resample_bounded R"
    and qi: "queue_inv s ii"
    and out: "out < maxOut"
  shows "out' \<le> maxOut" and "not_behind s s'"
    and "Resample_progress R \<Longrightarrow> 0 < sProcessLen s \<Longrightarrow> \<not> isLast \<Longrightarrow>
         (maxOut - out') + pending_input s' ii < (maxOut - out) + pending_input s ii"
proof -
  define queueLen where "queueLen = mQueueLen s ! ii"
  define queueStart where "queueStart = mQueueStart s ! ii"
  define lst where "lst \<longleftrightarrow> queueLen < int (sProcessLen s)"
  define thisProcessLen where
    "thisProcessLen = (if lst then size_t_of_int queueLen else sProcessLen s)"
  define ins where
    "ins = take thisProcessLen (drop (nat queueStart) (mSampleQueue s ! ii))"
  obtain factor where results:
    "isLast = lst"
    "out' = out + length (fst (snd (Resample_Process R (mResample s ! ii) factor ins lst
        (maxOut - out))))"
    "mQueueStart s' = (mQueueStart s)[ii :=
        queueStart + int (fst (Resample_Process R (mResample s ! ii) factor ins lst (maxOut - out)))]"
    "mQueueLen s' = (mQueueLen s)[ii :=
        queueLen - int (fst (Resample_Process R (mResample s ! ii) factor ins lst (maxOut - out)))]"
    "mSampleQueue s' = mSampleQueue s" "mSamplePos s' = mSamplePos s"
    using sl
    unfolding resample_slice_def Let_def ins_def thisProcessLen_def lst_def queueLen_def
      queueStart_def
    by auto
  define used where
    "used = fst (Resample_Process R (mResample s ! ii) factor ins lst (maxOut - out))"
  define produced where
    "produced = length (fst (snd (Resample_Process R (mResample s ! ii) factor ins lst
        (maxOut - out))))"
  note res = results [folded used_def produced_def]
  from bounded have b: "used \<le> length ins" "produced \<le> maxOut - out"
    by (simp_all add: Resample_bounded_def used_def produced_def)
  from qi have q: "ii < length (mSamplePos s)" "ii < length (mSampleQueue s)"
    "ii < length (mQueueStart s)" "ii < length (mQueueLen s)"
    "length (mSampleQueue s ! ii) = sQueueMaxLen s" "sQueueMaxLen s < 2 ^ 64"
    "0 \<le> queueStart" "0 \<le> queueLen" "queueStart + queueLen \<le> int (sQueueMaxLen s)"
    by (simp_all add: queue_inv_def queueLen_def queueStart_def)
  have tpl: "int thisProcessLen \<le> queueLen"
  proof (cases lst)
    case True
    from q have "size_t_of_int queueLen = nat queueLen"
      by (intro size_t_of_int_id) simp_all
    with True q show ?thesis by (simp add: thisProcessLen_def)
  next
    case False
    then show ?thesis by (simp add: thisProcessLen_def lst_def)
  qed
  have "length ins \<le> thisProcessLen" by (simp add: ins_def)
  with b tpl have used_le: "int used \<le> queueLen" by linarith
  from res b out show "out' \<le> maxOut" by simp
  have fr: "mix_frame s s'"
    using sl by (rule resample_slice_frame)
  then have c: "mInputTrack s' = mInputTrack s" "mT0 s' = mT0 s" "mT1 s' = mT1 s"
    "sQueueMaxLen s' = sQueueMaxLen s" "length (mSamplePos s') = length (mSamplePos s)"
    "length (mSampleQueue s') = length (mSampleQueue s)"
    "length (mQueueStart s') = length (mQueueStart s)"
    "length (mQueueLen s') = length (mQueueLen s)"
    by (simp_all add: mix_frame_def)
  have rem: "remaining_input s' jj = remaining_input s jj" for jj
    by (rule remaining_input_cong) (simp_all add: c res)
  from res q have at: "mQueueStart s' ! ii = queueStart + int used"
    "mQueueLen s' ! ii = queueLen - int used"
    by simp_all
  have pend: "pending_input s' ii + used = pending_input s ii"
    using at used_le q by (simp add: pending_input_def rem queueLen_def)
  show "not_behind s s'"
  proof (rule not_behindI [OF fr])
    fix jj
    assume qj: "queue_inv s jj"
    show "queue_inv s' jj \<and> pending_input s' jj \<le> pending_input s jj"
    proof (cases "jj = ii")
      case True
      from at q c res used_le have "queue_inv s' ii"
        by (simp add: queue_inv_def)
      with pend True show ?thesis by simp
    next
      case False
      with res have "mQueueStart s' ! jj = mQueueStart s ! jj"
        "mQueueLen s' ! jj = mQueueLen s ! jj"
        by simp_all
      with qj c res rem [of jj] show ?thesis
        by (simp add: queue_inv_def pending_input_def)
    qed
  qed
  show "(maxOut - out') + pending_input s' ii < (maxOut - out) + pending_input s ii"
    if progress: "Resample_progress R" and p: "0 < sProcessLen s" and nl: "\<not> isLast"
  proof -
    from nl res have "\<not> lst" by simp
    then have full: "int (sProcessLen s) \<le> queueLen" and "thisProcessLen = sProcessLen s"
      by (simp_all add: lst_def thisProcessLen_def)
    with q have "length ins = sProcessLen s"
      by (simp add: ins_def)
    with p have "ins \<noteq> []" by auto
    with progress out have "0 < used + produced"
      by (simp add: Resample_progress_def used_def produced_def)
    with pend res b out show ?thesis by linarith
  qed
qed

lemma resample_slice_out:
  assumes "resample_slice R ii maxOut fb out t s = (isLast, out', t', s')"
    and "Resample_bounded R" and "out < maxOut"
  shows "out' \<le> maxOut"
proof -
  from assms(1) obtain r factor ins lst where
    "out' = out + length (fst (snd (Resample_Process R r factor ins lst (maxOut - out))))"
    unfolding resample_slice_def Let_def by auto
  moreover from assms(2) have
    "length (fst (snd (Resample_Process R r factor ins lst (maxOut - out)))) \<le> maxOut - out"
    by (simp add: Resample_bounded_def)
  ultimately show ?thesis using assms(3) by simp
qed

lemma MixVariableRates_loop_bound:
  assumes run: "MixVariableRates_loop fuel R ii maxOut fb out t s = Done (n, s')"
    and bounded: "Resample_bounded R" and out: "out \<le> maxOut"
  shows "n \<le> maxOut"
  by (rule MixVariableRates_loop_invariant(1)
        [where P = "\<lambda>k u. k \<le> maxOut" and out = out and s = s, OF out _ _ run])
     (simp, rule resample_slice_out [OF _ bounded], assumption+)

lemma MixVariableRates_loop_not_behind:
  fixes s :: "'r Mixer"
  assumes run: "MixVariableRates_loop fuel R ii maxOut fb out t s = Done (n, s') \<or>
                MixVariableRates_loop fuel R ii maxOut fb out t s = Raised s'"
    and bounded: "Resample_bounded R" and qi: "queue_inv s ii"
  shows "not_behind s s'"
proof -
  let ?P = "\<lambda>(k::nat) u. not_behind s u"
  have init: "?P out s" by simp
  have rf: "?P k u1" if "?P k u" "refill_queue ii u = Done u1 \<or> refill_queue ii u = Raised u1"
    for k u u1
    using that by (blast intro: not_behind_trans refill_queue_not_behind)
  have sl: "?P k' u2" if "?P k u" "k < maxOut"
    "resample_slice R ii maxOut fb k t u = (isLast, k', t', u2)" for k t u isLast k' t' u2
  proof -
    from that(1) qi have "queue_inv u ii" by (simp add: not_behind_def)
    from resample_slice_step(2) [OF that(3) bounded this that(2)] that(1)
    show ?thesis by (blast intro: not_behind_trans)
  qed
  have d: "not_behind s s'" if "MixVariableRates_loop fuel R ii maxOut fb out t s = Done (n, s')"
    by (rule MixVariableRates_loop_invariant(1) [where P = ?P and out = out and s = s,
          OF init _ _ that]) (blast intro: rf sl)+
  have "\<exists>k::nat. not_behind s s'"
    if "MixVariableRates_loop fuel R ii maxOut fb out t s = Raised s'"
    by (rule MixVariableRates_loop_invariant(2) [where P = ?P and out = out and s = s,
          OF init _ _ that]) (blast intro: rf sl)+
  with d run show ?thesis by blast
qed

text \<open>
  With a resampler that keeps its contract and makes progress, the loop of
  \<^verbatim>\<open>MixVariableRates\<close> ends within as many iterations as there is room for output and
  input pending, and one more.
\<close>

lemma MixVariableRates_loop_finishes:
  fixes s :: "'r Mixer"
  assumes bounded: "Resample_bounded R" and progress: "Resample_progress R"
    and p: "0 < sProcessLen s"
    and qi: "queue_inv s ii"
    and fuel: "(maxOut - out) + pending_input s ii < fuel"
  shows "MixVariableRates_loop fuel R ii maxOut fb out t s \<noteq> Unfinished"
  using p qi fuel
proof (induction fuel arbitrary: out t s)
  case 0
  then show ?case by simp
next
  case (Suc fuel)
  show ?case
  proof (cases "out < maxOut")
    case False
    then show ?thesis by simp
  next
    case True
    define r where
      "r = (if mQueueLen s ! ii < int (sProcessLen s) then refill_queue ii s else Done s)"
    show ?thesis
    proof (cases r)
      case (Done s1)
      have nb: "not_behind s s1"
        using Done refill_queue_not_behind [of ii s s1]
        by (auto simp: r_def split: if_splits)
      with Suc.prems have q1: "queue_inv s1 ii" and pend1: "pending_input s1 ii \<le> pending_input s ii"
        and p1: "0 < sProcessLen s1"
        by (simp_all add: not_behind_def mix_frame_def)
      obtain isLast out' t' s2 where
        sl: "resample_slice R ii maxOut fb out t s1 = (isLast, out', t', s2)"
        by (metis prod_cases4)
      show ?thesis
      proof (cases isLast)
        case True
        with \<open>out < maxOut\<close> Done sl show ?thesis
          by (simp add: r_def [symmetric])
      next
        case False
        from resample_slice_step(3) [OF sl bounded q1 \<open>out < maxOut\<close> progress p1 False]
        have less: "(maxOut - out') + pending_input s2 ii < (maxOut - out) + pending_input s1 ii" .
        from resample_slice_step(2) [OF sl bounded q1 \<open>out < maxOut\<close>] q1 p1
        have q2: "queue_inv s2 ii" and p2: "0 < sProcessLen s2"
          by (simp_all add: not_behind_def mix_frame_def)
        from less pend1 Suc.prems(3) have "(maxOut - out') + pending_input s2 ii < fuel"
          by linarith
        from Suc.IH [OF p2 q2 this]
        have "MixVariableRates_loop fuel R ii maxOut fb out' t' s2 \<noteq> Unfinished" .
        with \<open>out < maxOut\<close> Done sl False show ?thesis
          by (simp add: r_def [symmetric])
      qed
    next
      case (Raised s1)
      with \<open>out < maxOut\<close> show ?thesis
        by (simp add: r_def [symmetric])
    next
      case Unfinished
      then show ?thesis
        using refill_queue_finished [of ii s] by (auto simp: r_def split: if_splits)
    qed
  qed
qed

lemma MixVariableRates_bound:
  "MixVariableRates fuel R ii maxOut fb s = Done (n, s') \<Longrightarrow> Resample_bounded R \<Longrightarrow> n \<le> maxOut"
  unfolding MixVariableRates_def Let_def
  by (erule MixVariableRates_loop_bound) simp_all

lemma mix_input_bound:
  assumes "mix_input fuel R ii maxToProcess fb s = Done (n, s')" and "Resample_bounded R"
  shows "n \<le> maxToProcess"
  using assms MixSameRate_Done [of ii maxToProcess fb s n s']
    MixVariableRates_bound [of fuel R ii maxToProcess fb s n s']
  by (auto simp: mix_input_def split: if_splits)

lemma mix_input_not_behind:
  assumes "mix_input fuel R ii maxToProcess fb s = Done (n, s') \<or>
           mix_input fuel R ii maxToProcess fb s = Raised s'"
    and "Resample_bounded R" and "queue_inv s ii"
  shows "not_behind s s'"
proof (cases "mbVariableRates (mResampleParameters s) \<or> GetRate (mInputTrack s ! ii) \<noteq> mRate s")
  case True
  with assms(1) have
    "MixVariableRates_loop fuel R ii maxToProcess fb 0
       (real_of_int (mSamplePos s ! ii +
          (if mT1 s < mT0 s then mQueueLen s ! ii else - (mQueueLen s ! ii)))
        / GetRate (mInputTrack s ! ii)) s = Done (n, s') \<or>
     MixVariableRates_loop fuel R ii maxToProcess fb 0
       (real_of_int (mSamplePos s ! ii +
          (if mT1 s < mT0 s then mQueueLen s ! ii else - (mQueueLen s ! ii)))
        / GetRate (mInputTrack s ! ii)) s = Raised s'"
    by (simp add: mix_input_def MixVariableRates_def Let_def)
  then show ?thesis
    using assms(2,3) by (rule MixVariableRates_loop_not_behind)
next
  case False
  with assms(1) have "MixSameRate ii maxToProcess fb s = Done (n, s') \<or>
      MixSameRate ii maxToProcess fb s = Raised s'"
    by (simp add: mix_input_def)
  then show ?thesis
    using MixSameRate_not_behind [of ii maxToProcess fb s n s']
      MixSameRate_Raised [of ii maxToProcess fb s s'] by auto
qed

lemma mix_input_finishes:
  assumes "Resample_bounded R" and "Resample_progress R" and "0 < sProcessLen s"
    and "queue_inv s ii" and "maxToProcess + pending_input s ii < fuel"
  shows "mix_input fuel R ii maxToProcess fb s \<noteq> Unfinished"
proof (cases "mbVariableRates (mResampleParameters s) \<or> GetRate (mInputTrack s ! ii) \<noteq> mRate s")
  case True
  from assms(5) have "(maxToProcess - 0) + pending_input s ii < fuel" by simp
  from MixVariableRates_loop_finishes [OF assms(1-4) this] True show ?thesis
    by (simp add: mix_input_def MixVariableRates_def Let_def)
next
  case False
  then show ?thesis
    by (simp add: mix_input_def MixSameRate_finished)
qed

lemma pending_input_le_sum:
  "ii < n \<Longrightarrow> pending_input s ii \<le> sum_list (map (pending_input s) [0..<n])"
  by (rule member_le_sum_list) simp_all

lemma temp_updates [simp]:
  "mix_frame s (u\<lparr>mTemp := tmp\<rparr>) = mix_frame s u"
  "queue_inv (u\<lparr>mTemp := tmp\<rparr>) jj = queue_inv u jj"
  "pending_input (u\<lparr>mTemp := tmp\<rparr>) jj = pending_input u jj"
  by (simp_all add: mix_frame_def queue_inv_def pending_input_def remaining_input_def Let_def)

lemma not_behind_temp:
  "not_behind s u \<Longrightarrow> not_behind s (u\<lparr>mTemp := tmp\<rparr>)"
  by (simp add: not_behind_def)

text \<open>With enough fuel \<^verbatim>\<open>Process\<close> ends: it returns, or a read has thrown.\<close>

lemma Process_finishes:
  fixes s :: "'r Mixer"
  assumes bounded: "Resample_bounded R" and progress: "Resample_progress R"
    and wf: "Mixer_wf s" and groups: "groups_ok s"
    and p: "0 < sProcessLen s"
    and queues: "\<forall>ii<mNumInputTracks s. queue_inv s ii"
    and fuel: "Process_fuel s maxToProcess \<le> fuel"
  shows "Process fuel R maxToProcess s \<noteq> Unfinished"
proof -
  let ?n = "mNumInputTracks s"
  let ?c = "Clear s"
  let ?P = "\<lambda>u. not_behind ?c u"
  have cl: "not_behind s ?c"
    by (simp add: Clear_def not_behind_temp)
  have c_pend: "pending_input ?c ii \<le> pending_input s ii" if "ii < ?n" for ii
    using cl queues that by (simp add: not_behind_def)
  have c_q: "queue_inv ?c ii" if "ii < ?n" for ii
    using cl queues that by (simp add: not_behind_def)
  have run: "process_tracks fuel R maxToProcess (mT0 s > mT1 s) ?n 0
       (0, mTime s, (\<lambda>j. 0), replicate (mNumChannels s) (Finite 1)) ?c \<noteq> Unfinished"
  proof (rule process_tracks_finishes [where P = ?P])
    show "?P ?c" by simp
  next
    fix ii fb u result u'
    assume "ii < ?n" "?P u" "mix_input fuel R ii maxToProcess fb u = Done (result, u')"
    moreover from \<open>?P u\<close> \<open>ii < ?n\<close> have "queue_inv u ii"
      using c_q [of ii] by (simp add: not_behind_def)
    ultimately show "?P u'"
      using mix_input_not_behind [of fuel R ii maxToProcess fb u result u', OF _ bounded]
      by (blast intro: not_behind_trans)
  next
    fix ii fb u
    assume a: "ii < ?n" "?P u"
    then have q: "queue_inv u ii" and pend: "pending_input u ii \<le> pending_input ?c ii"
      using c_q [of ii] by (simp_all add: not_behind_def)
    from a p have pl: "0 < sProcessLen u"
      by (simp add: not_behind_def mix_frame_def Clear_def)
    from pend c_pend [OF a(1)] pending_input_le_sum [OF a(1), of s] fuel
    have "maxToProcess + pending_input u ii < fuel"
      by (simp add: Process_fuel_def)
    from mix_input_finishes [OF bounded progress pl q this]
    show "mix_input fuel R ii maxToProcess fb u \<noteq> Unfinished" .
  next
    fix u tmp
    assume "?P u"
    then show "?P (u\<lparr>mTemp := tmp\<rparr>)" by (rule not_behind_temp)
  next
    fix u i
    assume "?P u" "i < ?n"
    then have "mInputTrack u = mInputTrack s"
      by (simp add: not_behind_def mix_frame_def Clear_def)
    with groups_ok_nth [OF wf groups \<open>i < ?n\<close>] show "1 \<le> NChannels (mInputTrack u ! i)"
      by simp
  qed
  then show ?thesis
    by (auto simp: Process_def Let_def Clear_def split: outcome.splits)
qed

lemma Process_bound:
  assumes run: "Process fuel R maxToProcess s = Done (k, s')" and bounded: "Resample_bounded R"
  shows "k \<le> maxToProcess"
proof -
  from run obtain newTime' mixed' gains' s2 where
    pt: "process_tracks fuel R maxToProcess (mT0 s > mT1 s) (mNumInputTracks s) 0
       (0, mTime s, (\<lambda>j. 0), replicate (mNumChannels s) (Finite 1)) (Clear s) =
     Done ((k, newTime', mixed', gains'), s2)"
    by (rule Process_Done)
  have "(process_tracks fuel R maxToProcess (mT0 s > mT1 s) (mNumInputTracks s) 0
       (0, mTime s, (\<lambda>j. 0), replicate (mNumChannels s) (Finite 1)) (Clear s) =
     Done ((k, newTime', mixed', gains'), s2) \<longrightarrow> k \<le> maxToProcess) \<and>
    (process_tracks fuel R maxToProcess (mT0 s > mT1 s) (mNumInputTracks s) 0
       (0, mTime s, (\<lambda>j. 0), replicate (mNumChannels s) (Finite 1)) (Clear s) = Raised s2 \<longrightarrow> True)"
  proof (rule process_tracks_invariant
      [where P = "\<lambda>mo nt u. mo \<le> maxToProcess" and Q = "\<lambda>u. True"])
    fix ii fb mo nt u result u'
    assume "mo \<le> maxToProcess" "mix_input fuel R ii maxToProcess fb u = Done (result, u')"
    then show "max mo result \<le> maxToProcess"
      using mix_input_bound [of fuel R ii maxToProcess fb u result u', OF _ bounded] by simp
  qed simp_all
  with pt show ?thesis by blast
qed

text \<open>Reads that do not throw: no routine ends with an exception.\<close>

lemma MixSameRate_no_throw:
  "\<forall>start len. GetFloats (mInputTrack s ! ii) start len (mMayThrow s) \<noteq> ReadThrows \<Longrightarrow>
   MixSameRate ii maxOut fb s \<noteq> Raised s'"
  by (auto simp: MixSameRate_def Let_def split: if_splits floats_result.splits)

lemma refill_queue_no_throw:
  "\<forall>start len. GetFloats (mInputTrack s ! ii) start len (mMayThrow s) \<noteq> ReadThrows \<Longrightarrow>
   refill_queue ii s \<noteq> Raised s'"
  by (auto simp: refill_queue_def Let_def split: if_splits floats_result.splits)

lemma MixVariableRates_loop_no_throw:
  fixes s :: "'r Mixer"
  assumes "\<forall>start len. GetFloats (mInputTrack s ! ii) start len (mMayThrow s) \<noteq> ReadThrows"
  shows "MixVariableRates_loop fuel R ii maxOut fb out t s \<noteq> Raised s'"
  using assms
proof (induction fuel arbitrary: out t s)
  case 0
  then show ?case by simp
next
  case (Suc fuel)
  show ?case
  proof (cases "out < maxOut")
    case False
    then show ?thesis by simp
  next
    case True
    define r where
      "r = (if mQueueLen s ! ii < int (sProcessLen s) then refill_queue ii s else Done s)"
    show ?thesis
    proof (cases r)
      case (Done s1)
      then have f1: "mix_frame s s1"
        using refill_queue_frame [of ii s s1] by (auto simp: r_def split: if_splits)
      obtain isLast out' t' s2 where
        sl: "resample_slice R ii maxOut fb out t s1 = (isLast, out', t', s2)"
        by (metis prod_cases4)
      from resample_slice_frame [OF sl] f1 have "mix_frame s s2"
        by (blast intro: mix_frame_trans)
      with Suc.prems have
        "\<forall>start len. GetFloats (mInputTrack s2 ! ii) start len (mMayThrow s2) \<noteq> ReadThrows"
        by (simp add: mix_frame_def)
      from Suc.IH [OF this]
      have "MixVariableRates_loop fuel R ii maxOut fb out' t' s2 \<noteq> Raised s'" .
      with \<open>out < maxOut\<close> Done sl show ?thesis
        by (simp add: r_def [symmetric])
    next
      case (Raised s1)
      with Suc.prems refill_queue_no_throw [of s ii s1] show ?thesis
        by (auto simp: r_def split: if_splits)
    next
      case Unfinished
      with \<open>out < maxOut\<close> show ?thesis
        by (simp add: r_def [symmetric])
    qed
  qed
qed

lemma mix_input_no_throw:
  assumes "\<forall>start len. GetFloats (mInputTrack s ! ii) start len (mMayThrow s) \<noteq> ReadThrows"
  shows "mix_input fuel R ii maxToProcess fb s \<noteq> Raised s'"
  using MixSameRate_no_throw [OF assms] MixVariableRates_loop_no_throw [OF assms]
  by (simp add: mix_input_def MixVariableRates_def Let_def)

lemma Process_no_throw:
  fixes s :: "'r Mixer"
  assumes "\<forall>ii<mNumInputTracks s. \<forall>start len.
             GetFloats (mInputTrack s ! ii) start len (mMayThrow s) \<noteq> ReadThrows"
  shows "Process fuel R maxToProcess s \<noteq> Raised s'"
proof -
  let ?run = "process_tracks fuel R maxToProcess (mT0 s > mT1 s) (mNumInputTracks s) 0
       (0, mTime s, (\<lambda>j. 0), replicate (mNumChannels s) (Finite 1)) (Clear s)"
  have "(?run = Done ((0, 0, (\<lambda>j. 0), []), s') \<longrightarrow> mix_frame s s') \<and> (?run = Raised s' \<longrightarrow> False)"
  proof (rule process_tracks_invariant
      [where P = "\<lambda>mo nt u. mix_frame s u" and Q = "\<lambda>u. False"])
    show "mix_frame s (Clear s)" by simp
  next
    fix ii fb mo nt u result u'
    assume "mix_frame s u" "mix_input fuel R ii maxToProcess fb u = Done (result, u')"
    then show "mix_frame s u'"
      by (blast intro: mix_frame_trans mix_input_frame)
  next
    fix ii fb mo nt u u'
    assume a: "ii < mNumInputTracks s" "mix_frame s u"
      "mix_input fuel R ii maxToProcess fb u = Raised u'"
    with assms have
      "\<forall>start len. GetFloats (mInputTrack u ! ii) start len (mMayThrow u) \<noteq> ReadThrows"
      by (simp add: mix_frame_def)
    from mix_input_no_throw [OF this] a(3) show False by blast
  next
    fix mo nt u tmp
    assume "mix_frame s u"
    then show "mix_frame s (u\<lparr>mTemp := tmp\<rparr>)" by simp
  qed
  then have "?run \<noteq> Raised s'" by blast
  then show ?thesis
    by (auto simp: Process_def Let_def Clear_def split: outcome.splits)
qed

text \<open>
  C1.  With a resampler that writes at most the \<open>outBufferLen\<close> samples it is allowed
  (the contract behind \<^verbatim>\<open>assert(out <= maxOut)\<close>), the count that \<open>Process\<close> returns is
  at most \<open>maxToProcess\<close>, and the counts that \<open>MixVariableRates\<close> and \<open>MixSameRate\<close>
  return are at most their \<open>maxOut\<close>.  And \<open>Process\<close> does return: with a resampler
  that also makes progress, queues within their invariant, non-empty channel groups and a
  positive slice length, the loops end within \<open>Process_fuel\<close> iterations, in a returned
  count when no read throws.
\<close>

theorem returned_count_bounded:
  fixes s :: "'r Mixer"
  shows
    "(Resample_bounded R \<and> Process fuel R maxToProcess s = Done (k, s') \<longrightarrow> k \<le> maxToProcess) \<and>
     (Resample_bounded R \<and> MixVariableRates fuel R ii maxOut fb s = Done (n, s') \<longrightarrow>
        n \<le> maxOut) \<and>
     (MixSameRate ii maxOut fb s = Done (n, s') \<longrightarrow> n \<le> maxOut) \<and>
     (Resample_bounded R \<and> Resample_progress R \<and> Mixer_wf s \<and> groups_ok s \<and>
      0 < sProcessLen s \<and> (\<forall>ii<mNumInputTracks s. queue_inv s ii) \<and>
      Process_fuel s maxToProcess \<le> fuel \<longrightarrow>
        Process fuel R maxToProcess s \<noteq> Unfinished \<and>
        ((\<forall>ii<mNumInputTracks s. \<forall>start len.
            GetFloats (mInputTrack s ! ii) start len (mMayThrow s) \<noteq> ReadThrows) \<longrightarrow>
         (\<exists>k s'. Process fuel R maxToProcess s = Done (k, s') \<and> k \<le> maxToProcess)))"
proof (intro conjI impI)
  assume "Resample_bounded R \<and> Process fuel R maxToProcess s = Done (k, s')"
  then show "k \<le> maxToProcess"
    using Process_bound [of fuel R maxToProcess s k s'] by blast
next
  assume "Resample_bounded R \<and> MixVariableRates fuel R ii maxOut fb s = Done (n, s')"
  then show "n \<le> maxOut"
    using MixVariableRates_bound [of fuel R ii maxOut fb s n s'] by blast
next
  assume "MixSameRate ii maxOut fb s = Done (n, s')"
  from MixSameRate_Done [OF this] show "n \<le> maxOut" by blast
next
  assume a: "Resample_bounded R \<and> Resample_progress R \<and> Mixer_wf s \<and> groups_ok s \<and>
      0 < sProcessLen s \<and> (\<forall>ii<mNumInputTracks s. queue_inv s ii) \<and>
      Process_fuel s maxToProcess \<le> fuel"
  then show fin: "Process fuel R maxToProcess s \<noteq> Unfinished"
    using Process_finishes [of R s maxToProcess fuel] by blast
  assume nt: "\<forall>ii<mNumInputTracks s. \<forall>start len.
            GetFloats (mInputTrack s ! ii) start len (mMayThrow s) \<noteq> ReadThrows"
  from Process_no_throw [OF nt] fin obtain r where "Process fuel R maxToProcess s = Done r"
    by (cases "Process fuel R maxToProcess s") auto
  then obtain k' u where d: "Process fuel R maxToProcess s = Done (k', u)"
    by (cases r) auto
  with a have "k' \<le> maxToProcess"
    using Process_bound [of fuel R maxToProcess s k' u] by blast
  with d show "\<exists>k s'. Process fuel R maxToProcess s = Done (k, s') \<and> k \<le> maxToProcess"
    by blast
qed

lemma example_resampler_ok:
  "Resample_bounded example_resampler" "Resample_progress example_resampler"
  by (auto simp: Resample_bounded_def Resample_progress_def example_resampler_def)

theorem returned_count_bounded_witness:
  "Resample_bounded example_resampler \<and> Resample_progress example_resampler \<and>
   Mixer_wf ((example_mixer example_track)\<lparr>mRate := 2\<rparr>) \<and>
   groups_ok ((example_mixer example_track)\<lparr>mRate := 2\<rparr>) \<and>
   queue_inv ((example_mixer example_track)\<lparr>mRate := 2\<rparr>) 0 \<and>
   Process_fuel ((example_mixer example_track)\<lparr>mRate := 2\<rparr>) 3 = 13 \<and>
   returned (Process 13 example_resampler 3 ((example_mixer example_track)\<lparr>mRate := 2\<rparr>)) =
     Some 3 \<and>
   returned (MixVariableRates 13 example_resampler 0 3 0
               ((example_mixer example_track)\<lparr>mRate := 2\<rparr>)) = Some 3 \<and>
   returned (MixSameRate 0 3 0 (example_mixer example_track)) = Some 3 \<and>
   (\<exists>k s'. Process 13 example_resampler 3 ((example_mixer example_track)\<lparr>mRate := 2\<rparr>) =
             Done (k, s') \<and> k \<le> 3)"
proof -
  let ?m = "(example_mixer example_track)\<lparr>mRate := 2\<rparr>"
  note ok = example_resampler_ok
  have wf: "Mixer_wf ?m"
    using example_mixer_wf [of example_track] by (simp add: Mixer_wf_def)
  have groups: "groups_ok ?m"
    using example_mixer_groups_ok by (simp add: groups_ok_def)
  have p: "0 < sProcessLen ?m"
    by (simp add: example_mixer_buffers)
  have q0: "queue_inv ?m 0"
    by (simp add: queue_inv_def example_mixer_more_fields example_mixer_buffers)
  then have q: "\<forall>ii<mNumInputTracks ?m. queue_inv ?m ii"
    by (simp add: example_mixer_fields)
  have fuel: "Process_fuel ?m 3 = 13"
    by code_simp
  have nt: "\<forall>ii<mNumInputTracks ?m. \<forall>start len.
            GetFloats (mInputTrack ?m ! ii) start len (mMayThrow ?m) \<noteq> ReadThrows"
    by (simp add: example_mixer_fields example_track_def)
  have r1: "returned (Process 13 example_resampler 3 ?m) = Some 3"
    by code_simp
  have r2: "returned (MixVariableRates 13 example_resampler 0 3 0 ?m) = Some 3"
    by code_simp
  have r3: "returned (MixSameRate 0 3 0 (example_mixer example_track)) = Some 3"
    by code_simp
  note th = returned_count_bounded [where R = example_resampler and s = ?m and fuel = 13
      and maxToProcess = 3, THEN conjunct2, THEN conjunct2, THEN conjunct2]
  have "Process 13 example_resampler 3 ?m \<noteq> Unfinished \<and>
        ((\<forall>ii<mNumInputTracks ?m. \<forall>start len.
            GetFloats (mInputTrack ?m ! ii) start len (mMayThrow ?m) \<noteq> ReadThrows) \<longrightarrow>
         (\<exists>k s'. Process 13 example_resampler 3 ?m = Done (k, s') \<and> k \<le> 3))"
    by (rule th [THEN mp]) (use ok wf groups p q fuel in simp)
  with nt have "\<exists>k s'. Process 13 example_resampler 3 ?m = Done (k, s') \<and> k \<le> 3"
    by blast
  with ok wf groups q0 fuel r1 r2 r3 show ?thesis by blast
qed

end
